theory Spec2Isabelle
  imports Main "HOL-Library.Word"
begin

unbundle bit_operations_syntax

section \<open>Errors and sequencing\<close>

text \<open>
  Every \<^verbatim>\<open>throw\<close> of the TypeScript sources is a value of \<open>error\<close>; a method that can
  throw returns \<open>error + 'a\<close>, with \<open>Inl\<close> the exception. A method that mutates
  \<^verbatim>\<open>this\<close> takes the object and returns the updated one.
\<close>

datatype error =
    BitStringOverflow           \<comment> \<open>\<^verbatim>\<open>Error("BitString overflow")\<close>\<close>
  | NoBitLength                 \<comment> \<open>\<^verbatim>\<open>Error("writeUint: no bitLength")\<close>, \<^verbatim>\<open>"writeInt: no bitLength"\<close>\<close>
  | BitLengthTooSmall           \<comment> \<open>\<^verbatim>\<open>Error("bitLength is too small for number, ...")\<close>\<close>
  | IncorrectTopUppedArray      \<comment> \<open>\<^verbatim>\<open>Error("Incorrect TopUppedArray")\<close>\<close>
  | IncorrectBitLength          \<comment> \<open>\<^verbatim>\<open>throw "Incorrect bitLength"\<close>\<close>
  | RefsOverflow                \<comment> \<open>\<^verbatim>\<open>Error("refs overflow")\<close>\<close>
  | TopologicalOrderBroken      \<comment> \<open>\<^verbatim>\<open>Error("Topological order is broken")\<close>\<close>
  | NotEnoughBytes              \<comment> \<open>the \<^verbatim>\<open>"Not enough bytes ..."\<close> errors of the decoder\<close>
  | InvalidHex                  \<comment> \<open>the two failures of \<^verbatim>\<open>hexToBytes\<close>\<close>
  | TypeError                   \<comment> \<open>the runtime's own error on a property of \<^verbatim>\<open>undefined\<close>\<close>
  | NotImplemented              \<comment> \<open>\<^verbatim>\<open>Error("Cell hashes explicit storing is not implemented")\<close>\<close>
  | AssertionFailed             \<comment> \<open>\<^verbatim>\<open>Error("Assertion failed")\<close> of bn.js\<close>

definition andThen :: "error + 'a \<Rightarrow> ('a \<Rightarrow> error + 'b) \<Rightarrow> error + 'b" where
  "andThen m f = (case m of Inl e \<Rightarrow> Inl e | Inr x \<Rightarrow> f x)"

type_synonym u8 = "8 word"

section \<open>BitString\<close>

text \<open>
  \<^verbatim>\<open>class BitString { array: Uint8Array; cursor: number; length: number }\<close>.
  The field \<^verbatim>\<open>length\<close> is \<open>length_bits\<close> here. Positions, cursors and lengths are
  non-negative integers; a \<^verbatim>\<open>Uint8Array\<close> ignores a store outside its range and reads
  \<^verbatim>\<open>undefined\<close> there, which the bit test of \<^verbatim>\<open>get\<close> turns into \<^verbatim>\<open>false\<close>.
\<close>

record BitString =
  array :: "u8 list"
  cursor :: nat
  length_bits :: nat

text \<open>\<^verbatim>\<open>constructor(length)\<close>: \<^verbatim>\<open>Math.ceil(length / 8)\<close> zero bytes.\<close>

definition new_BitString :: "nat \<Rightarrow> BitString" where
  "new_BitString len = \<lparr> array = replicate ((len + 7) div 8) 0, cursor = 0, length_bits = len \<rparr>"

text \<open>
  What the constructor establishes and no method breaks: the buffer has
  \<^verbatim>\<open>Math.ceil(length / 8)\<close> bytes.
\<close>

definition wellFormed :: "BitString \<Rightarrow> bool" where
  "wellFormed b = (length (array b) = (length_bits b + 7) div 8)"

definition getFreeBits :: "BitString \<Rightarrow> int" where
  "getFreeBits b = int (length_bits b) - int (cursor b)"

definition getUsedBits :: "BitString \<Rightarrow> nat" where
  "getUsedBits b = cursor b"

definition getUsedBytes :: "BitString \<Rightarrow> nat" where
  "getUsedBytes b = (cursor b + 7) div 8"

text \<open>\<^verbatim>\<open>1 << (7 - (n % 8))\<close>\<close>

definition bitMask :: "nat \<Rightarrow> u8" where
  "bitMask n = push_bit (7 - n mod 8) 1"

text \<open>\<^verbatim>\<open>(array[(n / 8) | 0] & mask) > 0\<close> on a byte array.\<close>

definition getBit :: "u8 list \<Rightarrow> nat \<Rightarrow> bool" where
  "getBit a n = (if n div 8 < length a then (a ! (n div 8)) AND bitMask n \<noteq> 0 else False)"

definition get :: "BitString \<Rightarrow> nat \<Rightarrow> bool" where
  "get b n = getBit (array b) n"

definition checkRange :: "BitString \<Rightarrow> nat \<Rightarrow> error + unit" where
  "checkRange b n = (if n > length_bits b then Inl BitStringOverflow else Inr ())"

definition on :: "nat \<Rightarrow> BitString \<Rightarrow> error + BitString" where
  "on n b = andThen (checkRange b n) (\<lambda>_.
     Inr (if n div 8 < length (array b)
          then b\<lparr>array := (array b)[n div 8 := (array b ! (n div 8)) OR bitMask n]\<rparr>
          else b))"

definition off :: "nat \<Rightarrow> BitString \<Rightarrow> error + BitString" where
  "off n b = andThen (checkRange b n) (\<lambda>_.
     Inr (if n div 8 < length (array b)
          then b\<lparr>array := (array b)[n div 8 := (array b ! (n div 8)) AND NOT (bitMask n)]\<rparr>
          else b))"

definition toggle :: "nat \<Rightarrow> BitString \<Rightarrow> error + BitString" where
  "toggle n b = andThen (checkRange b n) (\<lambda>_.
     Inr (if n div 8 < length (array b)
          then b\<lparr>array := (array b)[n div 8 := (array b ! (n div 8)) XOR bitMask n]\<rparr>
          else b))"

text \<open>
  \<^verbatim>\<open>writeBit(b)\<close>: the argument is a boolean (the callers pass booleans, or 0 and 1, for
  which \<^verbatim>\<open>b && +b > 0\<close> is the boolean itself).
\<close>

definition writeBit :: "bool \<Rightarrow> BitString \<Rightarrow> error + BitString" where
  "writeBit v b =
     andThen (if v then on (cursor b) b else off (cursor b) b)
       (\<lambda>b'. Inr (b'\<lparr>cursor := cursor b' + 1\<rparr>))"

fun writeBitArray :: "bool list \<Rightarrow> BitString \<Rightarrow> error + BitString" where
  "writeBitArray [] b = Inr b"
| "writeBitArray (v # ba) b = andThen (writeBit v b) (writeBitArray ba)"

subsection \<open>Big integers\<close>

text \<open>
  \<^verbatim>\<open>BN\<close> is the arbitrary-precision integer of the library bn.js, an \<open>int\<close> here. The writers
  take a \<^verbatim>\<open>number | BN\<close>: \<open>Number n\<close> is the JavaScript number of integral value \<open>n\<close> (never
  \<^verbatim>\<open>NaN\<close>, \<^verbatim>\<open>null\<close> or \<^verbatim>\<open>undefined\<close>), \<open>BN n\<close> the big integer \<open>n\<close>. \<^verbatim>\<open>new BN(x)\<close> is \<open>new_BN\<close>: a
  \<^verbatim>\<open>BN\<close> is taken as it is, and a number goes through \<^verbatim>\<open>_initNumber\<close>, whose
  \<^verbatim>\<open>assert(number < 0x20000000000000)\<close> on the magnitude refuses every number from \<open>2^53\<close> on.

  Of the
  library, the model further needs its base-2 printing and parsing:
  \<^verbatim>\<open>toString(2, padding)\<close> prints the magnitude in binary (\<^verbatim>\<open>"0"\<close> for zero), puts zeros in
  front until the length is a multiple of \<^verbatim>\<open>padding\<close> (a missing or zero padding counts as 1),
  and then puts \<^verbatim>\<open>"-"\<close> in front of a negative number; \<^verbatim>\<open>new BN(s, 2)\<close> reads a string of binary
  digits.
\<close>

datatype Numeric = Number int | BN int

fun new_BN :: "Numeric \<Rightarrow> error + int" where
  "new_BN (BN n) = Inr n"
| "new_BN (Number n) = (if \<bar>n\<bar> < 2 ^ 53 then Inr n else Inl AssertionFailed)"

fun binaryDigits :: "nat \<Rightarrow> string" where
  "binaryDigits n =
     (if n = 0 then []
      else binaryDigits (n div 2) @ [if n mod 2 = 1 then CHR ''1'' else CHR ''0''])"

declare binaryDigits.simps [simp del]

definition padLeft :: "nat \<Rightarrow> string \<Rightarrow> string" where
  "padLeft padding out =
     (let p = (if padding = 0 then 1 else padding)
      in replicate ((p - length out mod p) mod p) (CHR ''0'') @ out)"

definition BN_toString2 :: "int \<Rightarrow> nat \<Rightarrow> string" where
  "BN_toString2 number padding =
     (let out = (if number = 0 then ''0'' else binaryDigits (nat \<bar>number\<bar>));
          out = padLeft padding out
      in if number < 0 then CHR ''-'' # out else out)"

definition BN_parse2 :: "string \<Rightarrow> int" where
  "BN_parse2 s = foldl (\<lambda>a c. 2 * a + (if c = CHR ''1'' then 1 else 0)) 0 s"

subsection \<open>Integer writers\<close>

text \<open>
  The loop of \<^verbatim>\<open>writeUint\<close>, \<^verbatim>\<open>for (let i = 0; i < bitLength; i++) this.writeBit(+s[i] === 1)\<close>,
  with \<open>k\<close> the iterations left. \<^verbatim>\<open>+s[i] === 1\<close> holds for the character \<^verbatim>\<open>"1"\<close> only: the
  sign character and a position past the end of the string give \<^verbatim>\<open>NaN\<close>.
\<close>

definition isOne :: "string \<Rightarrow> nat \<Rightarrow> bool" where
  "isOne s i = (i < length s \<and> s ! i = CHR ''1'')"

fun writeUint_loop :: "string \<Rightarrow> nat \<Rightarrow> nat \<Rightarrow> BitString \<Rightarrow> error + BitString" where
  "writeUint_loop s i 0 b = Inr b"
| "writeUint_loop s i (Suc k) b = andThen (writeBit (isOne s i) b) (writeUint_loop s (Suc i) k)"

text \<open>
  \<^verbatim>\<open>writeUint(number, bitLength)\<close>, for a \<open>number\<close> that is a number or a \<^verbatim>\<open>BN\<close> and a
  non-negative integer \<open>bitLength\<close>: the checks for \<^verbatim>\<open>NaN\<close>, \<^verbatim>\<open>null\<close> and \<^verbatim>\<open>undefined\<close> pass
  for every such \<open>number\<close>. The guard \<^verbatim>\<open>if (!bitLength) throw\<close> comes before
  \<^verbatim>\<open>number = new BN(number)\<close> and the test \<^verbatim>\<open>bitLength == 0\<close>.
\<close>

definition writeUint :: "Numeric \<Rightarrow> nat \<Rightarrow> BitString \<Rightarrow> error + BitString" where
  "writeUint number bitLength b =
     (if bitLength = 0 then Inl NoBitLength
      else andThen (new_BN number) (\<lambda>number.
        if bitLength = 0 \<or> length (BN_toString2 number 1) > bitLength then
          (if number = 0 then Inr b else Inl BitLengthTooSmall)
        else writeUint_loop (BN_toString2 number bitLength) 0 bitLength b))"

text \<open>
  \<^verbatim>\<open>writeInt(number, bitLength)\<close>. For a negative number it writes the sign bit and then
  computes \<^verbatim>\<open>new BN(2).pow(new BN(bitLength - 1))\<close>, where \<^verbatim>\<open>bitLength - 1\<close> is a number.
\<close>

definition writeInt :: "Numeric \<Rightarrow> nat \<Rightarrow> BitString \<Rightarrow> error + BitString" where
  "writeInt number bitLength b =
     (if bitLength = 0 then Inl NoBitLength
      else andThen (new_BN number) (\<lambda>number.
        if bitLength = 1 then
          (if number = - 1 then writeBit True b
           else if number = 0 then writeBit False b
           else Inl BitLengthTooSmall)
        else if number < 0 then
          andThen (writeBit True b) (\<lambda>b.
          andThen (new_BN (Number (int (bitLength - 1)))) (\<lambda>e.
            writeUint (BN (2 ^ nat e + number)) (bitLength - 1) b))
        else
          andThen (writeBit False b) (writeUint (BN number) (bitLength - 1))))"

definition writeUint8 :: "int \<Rightarrow> BitString \<Rightarrow> error + BitString" where
  "writeUint8 ui8 b = writeUint (Number ui8) 8 b"

fun writeBytes :: "u8 list \<Rightarrow> BitString \<Rightarrow> error + BitString" where
  "writeBytes [] b = Inr b"
| "writeBytes (x # xs) b = andThen (writeUint8 (uint x) b) (writeBytes xs)"

definition clone :: "BitString \<Rightarrow> BitString" where
  "clone b = \<lparr> array = array b, cursor = cursor b, length_bits = length_bits b \<rparr>"

subsection \<open>Top-upped bytes and hex\<close>

lemma andThen_simps [simp]:
  "andThen (Inl e) f = Inl e"
  "andThen (Inr x) f = f x"
  by (simp_all add: andThen_def)

lemma andThen_cong [fundef_cong]:
  "m = m' \<Longrightarrow> (\<And>x. m' = Inr x \<Longrightarrow> f x = f' x) \<Longrightarrow> andThen m f = andThen m' f'"
  by (cases m') simp_all

lemma writeBit_cursor: "writeBit v b = Inr b' \<Longrightarrow> cursor b' = cursor b + 1"
  by (auto simp: writeBit_def on_def off_def checkRange_def split: if_splits)

text \<open>The loop \<^verbatim>\<open>while (tu > 0) { tu = tu - 1; ret.writeBit(false); }\<close> of \<^verbatim>\<open>getTopUppedArray\<close>.\<close>

fun topUp_loop :: "nat \<Rightarrow> BitString \<Rightarrow> error + BitString" where
  "topUp_loop 0 ret = Inr ret"
| "topUp_loop (Suc tu) ret = andThen (writeBit False ret) (topUp_loop tu)"

definition getTopUppedArray :: "BitString \<Rightarrow> error + u8 list" where
  "getTopUppedArray b =
     (let ret = clone b;
          tu = ((cursor ret + 7) div 8) * 8 - cursor ret
      in andThen (if tu > 0 then andThen (writeBit True ret) (topUp_loop (tu - 1)) else Inr ret)
           (\<lambda>ret. Inr (take ((cursor ret + 7) div 8) (array ret))))"

text \<open>
  \<^verbatim>\<open>bytesToHex\<close> of Utils.ts looks every byte up in \<^verbatim>\<open>to_hex_array\<close>, its two lower-case
  hex digits; \<^verbatim>\<open>toUpperCase\<close> is the string method, on ASCII.
\<close>

definition hexDigit :: "nat \<Rightarrow> char" where
  "hexDigit n = ''0123456789abcdef'' ! n"

definition bytesToHex :: "u8 list \<Rightarrow> string" where
  "bytesToHex buffer =
     concat (map (\<lambda>w. [hexDigit (unat w div 16), hexDigit (unat w mod 16)]) buffer)"

definition toUpperCase :: "string \<Rightarrow> string" where
  "toUpperCase s =
     map (\<lambda>c. let n = (of_char c :: nat) in if 97 \<le> n \<and> n \<le> 122 then char_of (n - 32) else c) s"

text \<open>The loop \<^verbatim>\<open>while (temp.cursor % 4 !== 0) temp.writeBit(0)\<close> of \<^verbatim>\<open>toHex\<close>.\<close>

function pad4 :: "BitString \<Rightarrow> error + BitString" where
  "pad4 temp = (if cursor temp mod 4 \<noteq> 0 then andThen (writeBit False temp) pad4 else Inr temp)"
  by pat_completeness auto
termination
proof (relation "measure (\<lambda>b. (4 - cursor b mod 4) mod 4)")
  show "wf (measure (\<lambda>b. (4 - cursor b mod 4) mod 4))" by simp
next
  fix temp x :: BitString
  assume "cursor temp mod 4 \<noteq> 0" and "writeBit False temp = Inr x"
  then have "cursor x = cursor temp + 1" "cursor temp mod 4 \<noteq> 0"
    by (simp_all add: writeBit_cursor)
  then show "(x, temp) \<in> measure (\<lambda>b. (4 - cursor b mod 4) mod 4)"
    by (simp add: mod_Suc) presburger
qed

declare pad4.simps [simp del]

lemma pad4_aligned: "pad4 b = Inr b' \<Longrightarrow> cursor b' mod 4 = 0"
proof (induction b rule: pad4.induct)
  case (1 temp)
  show ?case
  proof (cases "cursor temp mod 4 = 0")
    case True
    with 1 show ?thesis by (simp add: pad4.simps)
  next
    case False
    with 1(2) obtain x where x: "writeBit False temp = Inr x" and "pad4 x = Inr b'"
      by (cases "writeBit False temp") (simp_all add: pad4.simps [of temp])
    with 1(1) False show ?thesis by simp
  qed
qed

text \<open>
  \<^verbatim>\<open>toHex()\<close>; \<^verbatim>\<open>s.slice(0, -1)\<close> drops the last character. The recursive call is on a
  bit string whose cursor the loop has brought to a multiple of 4.
\<close>

function toHex :: "BitString \<Rightarrow> error + string" where
  "toHex b =
     (if cursor b mod 4 = 0 then
        (let s = toUpperCase (bytesToHex (take ((cursor b + 7) div 8) (array b)))
         in if cursor b mod 8 = 0 then Inr s else Inr (butlast s))
      else
        andThen (writeBit True (clone b)) (\<lambda>temp.
        andThen (pad4 temp) (\<lambda>temp.
        andThen (toHex temp) (\<lambda>hex. Inr (toUpperCase hex @ ''_'')))))"
  by pat_completeness auto
termination
  by (relation "measure (\<lambda>b. if cursor b mod 4 = 0 then 0 else 1)") (auto dest: pad4_aligned)

declare toHex.simps [simp del]

text \<open>
  \<^verbatim>\<open>setTopUppedArray(array, fullfilledBytes)\<close>. Its loop
  \<^verbatim>\<open>for (let c = 0; c < 7; c++) { this.cursor -= 1; if (this.get(this.cursor)) { ...; break; } }\<close>
  is \<open>findEndBit\<close>, with \<open>k\<close> the iterations left; leaving the loop without the end bit
  throws.
\<close>

fun findEndBit :: "nat \<Rightarrow> BitString \<Rightarrow> error + BitString" where
  "findEndBit 0 b = Inl IncorrectTopUppedArray"
| "findEndBit (Suc k) b =
     (let b' = b\<lparr>cursor := cursor b - 1\<rparr>
      in if get b' (cursor b') then off (cursor b') b' else findEndBit k b')"

definition setTopUppedArray :: "u8 list \<Rightarrow> bool \<Rightarrow> BitString \<Rightarrow> error + BitString" where
  "setTopUppedArray arr fullfilledBytes b =
     (let b1 = b\<lparr>length_bits := length arr * 8, array := arr, cursor := length arr * 8\<rparr>
      in if fullfilledBytes \<or> length_bits b1 = 0 then Inr b1 else findEndBit 7 b1)"

section \<open>Slice\<close>

text \<open>
  \<^verbatim>\<open>class Slice { array; length; readCursor; refs: Slice[]; refCursor }\<close>; the fields
  \<^verbatim>\<open>array\<close>, \<^verbatim>\<open>length\<close> and \<^verbatim>\<open>refs\<close> are \<open>s_array\<close>, \<open>s_length\<close> and \<open>s_refs\<close> here.
\<close>

datatype Slice =
  Slice (s_array: "u8 list") (s_length: nat) (readCursor: nat) (s_refs: "Slice list") (refCursor: nat)

definition Slice_checkRange :: "Slice \<Rightarrow> nat \<Rightarrow> error + unit" where
  "Slice_checkRange s n = (if n > s_length s then Inl BitStringOverflow else Inr ())"

definition Slice_get :: "Slice \<Rightarrow> nat \<Rightarrow> error + bool" where
  "Slice_get s n = andThen (Slice_checkRange s n) (\<lambda>_. Inr (getBit (s_array s) n))"

definition set_readCursor :: "nat \<Rightarrow> Slice \<Rightarrow> Slice" where
  "set_readCursor c s = Slice (s_array s) (s_length s) c (s_refs s) (refCursor s)"

definition set_refCursor :: "nat \<Rightarrow> Slice \<Rightarrow> Slice" where
  "set_refCursor c s = Slice (s_array s) (s_length s) (readCursor s) (s_refs s) c"

definition loadBit :: "Slice \<Rightarrow> error + (bool \<times> Slice)" where
  "loadBit s = andThen (Slice_get s (readCursor s))
     (\<lambda>result. Inr (result, set_readCursor (readCursor s + 1) s))"

text \<open>
  The loop of \<^verbatim>\<open>loadUint\<close>, \<^verbatim>\<open>for (...) s += this.loadBit() ? "1" : "0"\<close>, with \<open>k\<close> the
  iterations left and \<open>acc\<close> the string so far.
\<close>

fun loadUint_loop :: "nat \<Rightarrow> string \<Rightarrow> Slice \<Rightarrow> error + (string \<times> Slice)" where
  "loadUint_loop 0 acc s = Inr (acc, s)"
| "loadUint_loop (Suc k) acc s =
     andThen (loadBit s)
       (\<lambda>(bit, s'). loadUint_loop k (acc @ [if bit then CHR ''1'' else CHR ''0'']) s')"

definition loadUint :: "nat \<Rightarrow> Slice \<Rightarrow> error + (int \<times> Slice)" where
  "loadUint bitLength s =
     (if bitLength < 1 then Inl IncorrectBitLength
      else andThen (loadUint_loop bitLength [] s) (\<lambda>(str, s'). Inr (BN_parse2 str, s')))"

definition loadInt :: "nat \<Rightarrow> Slice \<Rightarrow> error + (int \<times> Slice)" where
  "loadInt bitLength s =
     (if bitLength < 1 then Inl IncorrectBitLength
      else andThen (loadBit s) (\<lambda>(sign, s1).
        if bitLength = 1 then Inr (if sign then - 1 else 0, s1)
        else andThen (loadUint (bitLength - 1) s1) (\<lambda>(number, s2).
          if sign then
            andThen (new_BN (Number (int (bitLength - 1)))) (\<lambda>e. Inr (number - 2 ^ nat e, s2))
          else Inr (number, s2))))"

text \<open>
  \<^verbatim>\<open>loadRef()\<close>: \<^verbatim>\<open>this.refs.at(this.refCursor)\<close> is \<^verbatim>\<open>undefined\<close> (here \<open>None\<close>) at an
  index past the end of the array.
\<close>

definition loadRef :: "Slice \<Rightarrow> error + (Slice option \<times> Slice)" where
  "loadRef s =
     (if refCursor s \<ge> 4 then Inl RefsOverflow
      else Inr (if refCursor s < length (s_refs s) then Some (s_refs s ! refCursor s) else None,
                set_refCursor (refCursor s + 1) s))"

section \<open>Cell\<close>

text \<open>
  \<^verbatim>\<open>class Cell { bits: BitString; refs: (Cell | number)[]; isExotic: boolean }\<close>. The
  encoder reads cells and never changes them, so a cell is a value here and a shared
  sub-cell is the same value at every place it hangs. An entry of \<^verbatim>\<open>refs\<close> is a cell or a
  number; \<open>cellsOf\<close> is the iteration \<^verbatim>\<open>for (const cell of this.refs)\<close> with its
  \<^verbatim>\<open>typeof cell !== "number"\<close> test.
\<close>

datatype Cell = Cell (bits: BitString) (refs: "CellRef list") (isExotic: bool)
  and CellRef = RefCell Cell | RefNum nat

definition new_Cell :: Cell where
  "new_Cell = Cell (new_BitString 1023) [] False"

fun cellsOf :: "CellRef list \<Rightarrow> Cell list" where
  "cellsOf [] = []"
| "cellsOf (RefCell c # rs) = c # cellsOf rs"
| "cellsOf (RefNum n # rs) = cellsOf rs"

lemma size_cellsOf: "c \<in> set (cellsOf rs) \<Longrightarrow> size c < Suc (size_list size rs)"
  by (induction rs rule: cellsOf.induct) auto

lemma size_subCell: "c' \<in> set (cellsOf (refs c)) \<Longrightarrow> size c' < size c"
  by (cases c) (auto dest: size_cellsOf)

function getMaxLevel :: "Cell \<Rightarrow> nat" where
  "getMaxLevel c =
     foldl (\<lambda>maxLevel cell. if getMaxLevel cell > maxLevel then getMaxLevel cell else maxLevel)
       0 (cellsOf (refs c))"
  by pat_completeness auto
termination
  by (relation "measure size") (auto dest: size_subCell)

declare getMaxLevel.simps [simp del]

definition isExplicitlyStoredHashes :: "Cell \<Rightarrow> nat" where
  "isExplicitlyStoredHashes c = 0"

function getMaxDepth :: "Cell \<Rightarrow> nat" where
  "getMaxDepth c =
     (if length (refs c) > 0 then
        foldl (\<lambda>maxDepth child. if getMaxDepth child > maxDepth then getMaxDepth child else maxDepth)
          0 (cellsOf (refs c)) + 1
      else 0)"
  by pat_completeness auto
termination
  by (relation "measure size") (auto dest: size_subCell)

declare getMaxDepth.simps [simp del]

definition getMaxDepthAsArray :: "Cell \<Rightarrow> u8 list" where
  "getMaxDepthAsArray c = (let maxDepth = getMaxDepth c in [of_nat (maxDepth div 256), of_nat (maxDepth mod 256)])"

definition getRefsDescriptor :: "Cell \<Rightarrow> u8" where
  "getRefsDescriptor c = of_nat (length (refs c) + (if isExotic c then 1 else 0) * 8 + getMaxLevel c * 32)"

definition getBitsDescriptor :: "Cell \<Rightarrow> u8" where
  "getBitsDescriptor c = of_nat ((cursor (bits c) + 7) div 8 + cursor (bits c) div 8)"

definition getDataWithDescriptors :: "Cell \<Rightarrow> error + u8 list" where
  "getDataWithDescriptors c =
     (let d1 = getRefsDescriptor c; d2 = getBitsDescriptor c
      in andThen (getTopUppedArray (bits c)) (\<lambda>tuBits. Inr ([d1] @ [d2] @ tuBits)))"

text \<open>
  \<^verbatim>\<open>getRepr\<close> and \<^verbatim>\<open>hash\<close>. SHA-256 is the platform's (\<^verbatim>\<open>crypto.subtle.digest\<close>), a
  parameter \<open>sha256\<close> here. \<open>mapE\<close> runs a loop that collects one result per element
  and stops at the first exception.
\<close>

fun mapE :: "('a \<Rightarrow> error + 'b) \<Rightarrow> 'a list \<Rightarrow> error + 'b list" where
  "mapE f [] = Inr []"
| "mapE f (x # xs) = andThen (f x) (\<lambda>y. andThen (mapE f xs) (\<lambda>ys. Inr (y # ys)))"

lemma mapE_cong [fundef_cong]:
  "xs = ys \<Longrightarrow> (\<And>x. x \<in> set ys \<Longrightarrow> f x = g x) \<Longrightarrow> mapE f xs = mapE g ys"
  by (induction ys arbitrary: xs) auto

function getRepr :: "(u8 list \<Rightarrow> u8 list) \<Rightarrow> Cell \<Rightarrow> error + u8 list" where
  "getRepr sha256 c =
     andThen (getDataWithDescriptors c) (\<lambda>d.
     andThen (mapE (\<lambda>cell. andThen (getRepr sha256 cell) (\<lambda>r. Inr (sha256 r))) (cellsOf (refs c)))
       (\<lambda>hashes. Inr (d @ concat (map getMaxDepthAsArray (cellsOf (refs c))) @ concat hashes)))"
  by pat_completeness auto
termination
  by (relation "measure (\<lambda>(s, c). size c)") (auto dest: size_subCell)

declare getRepr.simps [simp del]

definition hash :: "(u8 list \<Rightarrow> u8 list) \<Rightarrow> Cell \<Rightarrow> error + u8 list" where
  "hash sha256 c = andThen (getRepr sha256 c) (\<lambda>r. Inr (sha256 r))"

text \<open>
  The topological walk. \<^verbatim>\<open>IndexHashmap\<close> is an object keyed by
  \<^verbatim>\<open>uint8ArrayToText(hash)\<close>; that helper is imported from Utils.ts, which does not define
  it, so it is a parameter \<open>uint8ArrayToText\<close> into any type of keys. Both functions
  change the array and the map in place and the model returns them updated.

  \<^verbatim>\<open>moveToTheEnd\<close> gets a hash, takes the cell to descend into from the array, and calls
  itself on that cell's children: its recursion is not on the structure of a value and it
  carries fuel, \<open>None\<close> standing for a run that the fuel did not suffice for. A key that
  the map does not hold reads as \<^verbatim>\<open>undefined\<close>: the comparisons with it are false and
  \<^verbatim>\<open>splice(undefined, 1)\<close> removes the element 0. \<^verbatim>\<open>data[1]\<close> on an element that
  \<^verbatim>\<open>splice\<close> did not find is a \<^verbatim>\<open>TypeError\<close>.
\<close>

type_synonym 'k IndexHashmap = "'k \<Rightarrow> nat option"
type_synonym TopologicalOrderArray = "(u8 list \<times> Cell) list"

fun forEachM :: "('a \<Rightarrow> 's \<Rightarrow> (error + 's) option) \<Rightarrow> 'a list \<Rightarrow> 's \<Rightarrow> (error + 's) option" where
  "forEachM f [] s = Some (Inr s)"
| "forEachM f (x # xs) s =
     (case f x s of
        None \<Rightarrow> None
      | Some (Inl e) \<Rightarrow> Some (Inl e)
      | Some (Inr s') \<Rightarrow> forEachM f xs s')"

lemma forEachM_cong [fundef_cong]:
  "xs = ys \<Longrightarrow> s = t \<Longrightarrow> (\<And>x u. x \<in> set ys \<Longrightarrow> f x u = g x u) \<Longrightarrow> forEachM f xs s = forEachM g ys t"
  by (induction ys arbitrary: xs s t) (auto split: option.splits sum.splits)

fun moveToTheEnd ::
  "nat \<Rightarrow> (u8 list \<Rightarrow> u8 list) \<Rightarrow> (u8 list \<Rightarrow> 'k) \<Rightarrow> 'k IndexHashmap \<Rightarrow> TopologicalOrderArray \<Rightarrow> u8 list
     \<Rightarrow> (error + ('k IndexHashmap \<times> TopologicalOrderArray)) option" where
  "moveToTheEnd 0 sha256 uint8ArrayToText indexHashmap topologicalOrderArray target = None"
| "moveToTheEnd (Suc fuel) sha256 uint8ArrayToText indexHashmap topologicalOrderArray target =
     (let targetString = uint8ArrayToText target;
          targetIndex = indexHashmap targetString;
          indexHashmap1 = (\<lambda>h. case (indexHashmap h, targetIndex) of
                              (Some v, Some t) \<Rightarrow> Some (if v > t then v - 1 else v)
                            | (x, _) \<Rightarrow> x);
          indexHashmap2 = indexHashmap1(targetString \<mapsto> length topologicalOrderArray - 1);
          start = (case targetIndex of None \<Rightarrow> 0 | Some t \<Rightarrow> t)
      in if start < length topologicalOrderArray then
           (let data = topologicalOrderArray ! start;
                topologicalOrderArray1 =
                  take start topologicalOrderArray @ drop (Suc start) topologicalOrderArray @ [data]
            in forEachM
                 (\<lambda>subCell (ih, toa).
                    case hash sha256 subCell of
                      Inl e \<Rightarrow> Some (Inl e)
                    | Inr h \<Rightarrow> moveToTheEnd fuel sha256 uint8ArrayToText ih toa h)
                 (cellsOf (refs (snd data))) (indexHashmap2, topologicalOrderArray1))
         else Some (Inl TypeError))"

definition greaterThan_js :: "nat option \<Rightarrow> nat option \<Rightarrow> bool" where
  "greaterThan_js a b = (case (a, b) of (Some x, Some y) \<Rightarrow> x > y | _ \<Rightarrow> False)"

function treeWalk ::
  "nat \<Rightarrow> (u8 list \<Rightarrow> u8 list) \<Rightarrow> (u8 list \<Rightarrow> 'k) \<Rightarrow> Cell \<Rightarrow> TopologicalOrderArray \<Rightarrow> 'k IndexHashmap
     \<Rightarrow> u8 list option \<Rightarrow> (error + (TopologicalOrderArray \<times> 'k IndexHashmap)) option" where
  "treeWalk fuel sha256 uint8ArrayToText cell topologicalOrderArray indexHashmap parentHash =
     (case hash sha256 cell of
        Inl e \<Rightarrow> Some (Inl e)
      | Inr cellHash \<Rightarrow>
          (let cellHashString = uint8ArrayToText cellHash in
           if indexHashmap cellHashString \<noteq> None then
             (case parentHash of
                None \<Rightarrow> Some (Inr (topologicalOrderArray, indexHashmap))
              | Some ph \<Rightarrow>
                  if greaterThan_js (indexHashmap (uint8ArrayToText ph)) (indexHashmap cellHashString)
                  then (case moveToTheEnd fuel sha256 uint8ArrayToText indexHashmap topologicalOrderArray cellHash of
                          None \<Rightarrow> None
                        | Some (Inl e) \<Rightarrow> Some (Inl e)
                        | Some (Inr (ih, toa)) \<Rightarrow> Some (Inr (toa, ih)))
                  else Some (Inr (topologicalOrderArray, indexHashmap)))
           else
             forEachM
               (\<lambda>subCell (toa, ih). treeWalk fuel sha256 uint8ArrayToText subCell toa ih (Some cellHash))
               (cellsOf (refs cell))
               (topologicalOrderArray @ [(cellHash, cell)],
                indexHashmap(cellHashString \<mapsto> length topologicalOrderArray))))"
  by pat_completeness auto
termination
  by (relation "measure (\<lambda>(f, s, t, c, _). size c)") (auto dest: size_subCell)

declare treeWalk.simps [simp del]


text \<open>
  Numbers as strings: \<^verbatim>\<open>n.toString(2)\<close> and \<^verbatim>\<open>n.toString(16)\<close> of a non-negative
  integer, and \<^verbatim>\<open>hexToBytes\<close> of Utils.ts with its tables \<^verbatim>\<open>to_hex_array\<close> and
  \<^verbatim>\<open>to_byte_map\<close>.
\<close>

definition Number_toString2 :: "nat \<Rightarrow> string" where
  "Number_toString2 n = (if n = 0 then ''0'' else binaryDigits n)"

fun hexDigits :: "nat \<Rightarrow> string" where
  "hexDigits n = (if n = 0 then [] else hexDigits (n div 16) @ [hexDigit (n mod 16)])"

declare hexDigits.simps [simp del]

definition Number_toString16 :: "nat \<Rightarrow> string" where
  "Number_toString16 n = (if n = 0 then ''0'' else hexDigits n)"

definition toLowerCase :: "string \<Rightarrow> string" where
  "toLowerCase s =
     map (\<lambda>c. let n = (of_char c :: nat) in if 65 \<le> n \<and> n \<le> 90 then char_of (n + 32) else c) s"

definition to_hex_array :: "string list" where
  "to_hex_array = map (\<lambda>ord. [hexDigit (ord div 16), hexDigit (ord mod 16)]) [0..<256]"

definition to_byte_map :: "string \<Rightarrow> nat option" where
  "to_byte_map = map_of (zip to_hex_array [0..<256])"

fun hexPairs :: "string \<Rightarrow> error + u8 list" where
  "hexPairs (a # b # rest) =
     (case to_byte_map [a, b] of
        None \<Rightarrow> Inl InvalidHex
      | Some v \<Rightarrow> andThen (hexPairs rest) (\<lambda>bs. Inr (of_nat v # bs)))"
| "hexPairs _ = Inr []"

definition hexToBytes :: "string \<Rightarrow> error + u8 list" where
  "hexToBytes s0 =
     (let s = toLowerCase s0
      in if length s mod 2 \<noteq> 0 then Inl InvalidHex else hexPairs s)"

definition concatBytes :: "u8 list \<Rightarrow> u8 list \<Rightarrow> u8 list" where
  "concatBytes a b = a @ b"

text \<open>
  \<^verbatim>\<open>crc32c\<close> of Utils.ts on 32-bit words: \<^verbatim>\<open>>>>\<close> is \<open>drop_bit\<close>, the trailer is the
  big-endian bytes of the sum, reversed.
\<close>

definition crc_step :: "32 word \<Rightarrow> 32 word" where
  "crc_step crc = (if crc AND 1 \<noteq> 0 then drop_bit 1 crc XOR 0x82f63b78 else drop_bit 1 crc)"

definition crc32c_raw :: "32 word \<Rightarrow> u8 list \<Rightarrow> 32 word" where
  "crc32c_raw crc bytes =
     foldl (\<lambda>crc byte. (crc_step ^^ 8) (crc XOR ucast byte)) (crc XOR 0xffffffff) bytes XOR 0xffffffff"

definition crc32c :: "u8 list \<Rightarrow> u8 list" where
  "crc32c bytes =
     (let int_crc = crc32c_raw 0 bytes
      in rev [ucast (drop_bit 24 int_crc), ucast (drop_bit 16 int_crc),
              ucast (drop_bit 8 int_crc), ucast int_crc])"

definition reachBocMagicPrefix :: "u8 list" where
  "reachBocMagicPrefix = [0xB5, 0xEE, 0x9C, 0x72]"

text \<open>
  \<^verbatim>\<open>serializeForBoc\<close>: the descriptors and data, then for every child the index
  \<^verbatim>\<open>cellsIndex[refHash]\<close> as the bytes of its hex form. An index the map does not hold is
  \<^verbatim>\<open>undefined\<close>, and \<^verbatim>\<open>undefined.toString(16)\<close> a \<^verbatim>\<open>TypeError\<close>.
\<close>

definition serializeForBoc ::
  "(u8 list \<Rightarrow> u8 list) \<Rightarrow> (u8 list \<Rightarrow> 'k) \<Rightarrow> Cell \<Rightarrow> 'k IndexHashmap \<Rightarrow> error + u8 list" where
  "serializeForBoc sha256 uint8ArrayToText c cellsIndex =
     andThen (getDataWithDescriptors c) (\<lambda>d.
     if isExplicitlyStoredHashes c \<noteq> 0 then Inl NotImplemented
     else
       andThen
         (mapE (\<lambda>cell.
            andThen (hash sha256 cell) (\<lambda>h.
              case cellsIndex (uint8ArrayToText h) of
                None \<Rightarrow> Inl TypeError
              | Some refIndexInt \<Rightarrow>
                  (let refIndexHex = Number_toString16 refIndexInt;
                       refIndexHex = (if length refIndexHex mod 2 \<noteq> 0 then CHR ''0'' # refIndexHex else refIndexHex)
                   in hexToBytes refIndexHex)))
            (cellsOf (refs c)))
         (\<lambda>references. Inr (foldl concatBytes [] (d # references))))"

definition bocSerializationSize ::
  "(u8 list \<Rightarrow> u8 list) \<Rightarrow> (u8 list \<Rightarrow> 'k) \<Rightarrow> Cell \<Rightarrow> 'k IndexHashmap \<Rightarrow> error + nat" where
  "bocSerializationSize sha256 uint8ArrayToText c cellsIndex =
     andThen (serializeForBoc sha256 uint8ArrayToText c cellsIndex) (\<lambda>x. Inr (length x))"

text \<open>
  \<^verbatim>\<open>toBoc\<close>: its three loops over the topological order (\<open>sizeLoop\<close>, \<open>indexLoop\<close>,
  \<open>bodyLoop\<close>), the part after the walk (\<open>toBoc_serialize\<close>) and the whole.
\<close>

fun sizeLoop ::
  "(u8 list \<Rightarrow> u8 list) \<Rightarrow> (u8 list \<Rightarrow> 'k) \<Rightarrow> 'k IndexHashmap \<Rightarrow> TopologicalOrderArray
     \<Rightarrow> nat \<Rightarrow> nat list \<Rightarrow> error + (nat \<times> nat list)" where
  "sizeLoop sha256 txt cellsIndex [] full_size sizeIndex = Inr (full_size, sizeIndex)"
| "sizeLoop sha256 txt cellsIndex (cell_info # rest) full_size sizeIndex =
     andThen (bocSerializationSize sha256 txt (snd cell_info) cellsIndex) (\<lambda>n.
       sizeLoop sha256 txt cellsIndex rest (full_size + n) (sizeIndex @ [full_size]))"

fun indexLoop :: "nat list \<Rightarrow> nat \<Rightarrow> BitString \<Rightarrow> error + BitString" where
  "indexLoop [] w b = Inr b"
| "indexLoop (x # xs) w b = andThen (writeUint (Number (int x)) w b) (indexLoop xs w)"

fun bodyLoop ::
  "(u8 list \<Rightarrow> u8 list) \<Rightarrow> (u8 list \<Rightarrow> 'k) \<Rightarrow> 'k IndexHashmap \<Rightarrow> TopologicalOrderArray
     \<Rightarrow> BitString \<Rightarrow> error + BitString" where
  "bodyLoop sha256 txt cellsIndex [] b = Inr b"
| "bodyLoop sha256 txt cellsIndex (cell_info # rest) b =
     andThen (serializeForBoc sha256 txt (snd cell_info) cellsIndex) (\<lambda>refcell_ser.
     andThen (writeBytes refcell_ser b) (bodyLoop sha256 txt cellsIndex rest))"

definition toBoc_s_bytes :: "nat \<Rightarrow> nat" where
  "toBoc_s_bytes cells_num = (let s = length (Number_toString2 cells_num) in min ((s + 7) div 8) 1)"

definition toBoc_serialize ::
  "(u8 list \<Rightarrow> u8 list) \<Rightarrow> (u8 list \<Rightarrow> 'k) \<Rightarrow> TopologicalOrderArray \<Rightarrow> 'k IndexHashmap
     \<Rightarrow> bool \<Rightarrow> bool \<Rightarrow> bool \<Rightarrow> int \<Rightarrow> error + u8 list" where
  "toBoc_serialize sha256 txt topologicalOrder cellsIndex has_idx hash_crc32 has_cache_bits flags =
     (let cells_num = length topologicalOrder;
          s_bytes = toBoc_s_bytes cells_num
      in andThen (sizeLoop sha256 txt cellsIndex topologicalOrder 0 []) (\<lambda>(full_size, sizeIndex).
         let offset_bits = length (Number_toString2 full_size);
             offset_bytes = max ((offset_bits + 7) div 8) 1;
             serialization = new_BitString ((1023 + 32 * 4 + 32 * 3) * length topologicalOrder)
         in
         andThen (writeBytes reachBocMagicPrefix serialization) (\<lambda>b.
         andThen (writeBitArray [has_idx, hash_crc32, has_cache_bits] b) (\<lambda>b.
         andThen (writeUint (Number flags) 2 b) (\<lambda>b.
         andThen (writeUint (Number (int s_bytes)) 3 b) (\<lambda>b.
         andThen (writeUint8 (int offset_bytes) b) (\<lambda>b.
         andThen (writeUint (Number (int cells_num)) (s_bytes * 8) b) (\<lambda>b.
         andThen (writeUint (Number 1) (s_bytes * 8) b) (\<lambda>b.
         andThen (writeUint (Number 0) (s_bytes * 8) b) (\<lambda>b.
         andThen (writeUint (Number (int full_size)) (offset_bytes * 8) b) (\<lambda>b.
         andThen (writeUint (Number 0) (s_bytes * 8) b) (\<lambda>b.
         andThen (if has_idx then indexLoop sizeIndex (offset_bytes * 8) b else Inr b) (\<lambda>b.
         andThen (bodyLoop sha256 txt cellsIndex topologicalOrder b) (\<lambda>b.
         andThen (getTopUppedArray b) (\<lambda>ser_arr.
         Inr (if hash_crc32 then concatBytes ser_arr (crc32c ser_arr) else ser_arr))))))))))))))))"

definition toBoc ::
  "nat \<Rightarrow> (u8 list \<Rightarrow> u8 list) \<Rightarrow> (u8 list \<Rightarrow> 'k) \<Rightarrow> Cell \<Rightarrow> bool \<Rightarrow> bool \<Rightarrow> bool \<Rightarrow> int
     \<Rightarrow> (error + u8 list) option" where
  "toBoc fuel sha256 txt c has_idx hash_crc32 has_cache_bits flags =
     (case treeWalk fuel sha256 txt c [] Map.empty None of
        None \<Rightarrow> None
      | Some (Inl e) \<Rightarrow> Some (Inl e)
      | Some (Inr (topologicalOrder, cellsIndex)) \<Rightarrow>
          Some (toBoc_serialize sha256 txt topologicalOrder cellsIndex has_idx hash_crc32 has_cache_bits flags))"

section \<open>Decoding\<close>

text \<open>
  The decoder builds the cells in \<^verbatim>\<open>cells_array\<close> and then stores, into the \<^verbatim>\<open>refs\<close> of
  each, references to other objects of that array. A reference to an object is an alias,
  and a cell that refers to itself is a cyclic object, so here the cells being decoded are
  the entries of the array and a resolved reference is \<open>Resolved r\<close>, the object
  \<^verbatim>\<open>cells_array[r]\<close>; \<open>Undefined\<close> is what \<^verbatim>\<open>cells_array[r]\<close> reads past the end of the array.
\<close>

datatype ref = Transient nat | Resolved nat | Undefined

record ParsedCell =
  p_bits :: BitString
  p_refs :: "ref list"
  p_isExotic :: bool

text \<open>
  \<^verbatim>\<open>readNBytesUIntFromArray(n, ui8array)\<close> of Utils.ts, for an array of at least \<open>n\<close>
  bytes (\<^verbatim>\<open>deserializeCellData\<close> checks the length before it reads).  The code accumulates
  the value in a double, which is exact below \<open>2 ^ 53\<close>: the definition is the value that the
  code returns for \<open>n \<le> 6\<close>, and the exact value, which the code rounds, for a larger \<open>n\<close>.
  The decoder is run below on reference indices of one byte.
\<close>

definition readNBytesUIntFromArray :: "nat \<Rightarrow> u8 list \<Rightarrow> nat" where
  "readNBytesUIntFromArray n ui8array = foldl (\<lambda>res c. res * 256 + unat (ui8array ! c)) 0 [0..<n]"

text \<open>
  \<^verbatim>\<open>deserializeCellData\<close>: \<^verbatim>\<open>Math.ceil(d2 / 2)\<close> and \<^verbatim>\<open>!(d2 % 2)\<close> of the bits
  descriptor, the loop over the reference indices (\<open>readRefs\<close>, \<open>k\<close> iterations left) and
  the function.
\<close>

definition dataBytesize_of :: "u8 \<Rightarrow> nat" where
  "dataBytesize_of d2 = (unat d2 + 1) div 2"

definition fullfilledBytes_of :: "u8 \<Rightarrow> bool" where
  "fullfilledBytes_of d2 = (unat d2 mod 2 = 0)"

fun readRefs :: "nat \<Rightarrow> nat \<Rightarrow> u8 list \<Rightarrow> ref list \<times> u8 list" where
  "readRefs 0 referenceIndexSize cellData = ([], cellData)"
| "readRefs (Suc k) referenceIndexSize cellData =
     (let r = readNBytesUIntFromArray referenceIndexSize cellData;
          (rs, residue) = readRefs k referenceIndexSize (drop referenceIndexSize cellData)
      in (Transient r # rs, residue))"

definition deserializeCellData :: "u8 list \<Rightarrow> nat \<Rightarrow> error + (ParsedCell \<times> u8 list)" where
  "deserializeCellData cellData0 referenceIndexSize =
     (if length cellData0 < 2 then Inl NotEnoughBytes
      else
        let d1 = cellData0 ! 0; d2 = cellData0 ! 1;
            cellData = drop 2 cellData0;
            refNum = unat d1 mod 8;
            dataBytesize = dataBytesize_of d2;
            fullfilledBytes = fullfilledBytes_of d2;
            exotic = (d1 AND 8 \<noteq> 0)
        in if length cellData < dataBytesize + referenceIndexSize * refNum then Inl NotEnoughBytes
           else
             andThen (setTopUppedArray (take dataBytesize cellData) fullfilledBytes (new_BitString 1023))
               (\<lambda>b. let (rs, residue) = readRefs refNum referenceIndexSize (drop dataBytesize cellData)
                    in Inr (\<lparr>p_bits = b, p_refs = rs, p_isExotic = exotic\<rparr>, residue)))"

text \<open>
  \<^verbatim>\<open>deserializeBoc\<close> after \<^verbatim>\<open>parseBocHeader\<close>: the fields of the header it reads are the
  record \<open>BocHeader\<close>. \<open>readCells\<close> is its first loop; \<open>resolveRefs\<close> is the second, from
  \<^verbatim>\<open>cells_num - 1\<close> down to 0, with \<open>resolveCell\<close> the loop over the \<^verbatim>\<open>refs\<close> of one cell. The
  result is the array and, for every root, the object \<^verbatim>\<open>cells_array[rootCell]\<close>.
\<close>

fun readCells :: "nat \<Rightarrow> nat \<Rightarrow> u8 list \<Rightarrow> ParsedCell list \<Rightarrow> error + ParsedCell list" where
  "readCells 0 size_bytes cells_data cells_array = Inr cells_array"
| "readCells (Suc k) size_bytes cells_data cells_array =
     andThen (deserializeCellData cells_data size_bytes)
       (\<lambda>(cell, residue). readCells k size_bytes residue (cells_array @ [cell]))"

fun resolveCell :: "ParsedCell list \<Rightarrow> nat \<Rightarrow> ref list \<Rightarrow> error + ref list" where
  "resolveCell cells_array ci [] = Inr []"
| "resolveCell cells_array ci (Transient r # rest) =
     (if r < ci then Inl TopologicalOrderBroken
      else andThen (resolveCell cells_array ci rest)
             (\<lambda>rs. Inr ((if r < length cells_array then Resolved r else Undefined) # rs)))"
| "resolveCell cells_array ci (x # rest) =
     andThen (resolveCell cells_array ci rest) (\<lambda>rs. Inr (x # rs))"

fun resolveRefs :: "nat \<Rightarrow> ParsedCell list \<Rightarrow> error + ParsedCell list" where
  "resolveRefs 0 cells_array = Inr cells_array"
| "resolveRefs (Suc ci) cells_array =
     andThen (resolveCell cells_array ci (p_refs (cells_array ! ci)))
       (\<lambda>rs. resolveRefs ci (cells_array[ci := (cells_array ! ci)\<lparr>p_refs := rs\<rparr>]))"

record BocHeader =
  cells_num :: nat
  size_bytes :: nat
  root_list :: "nat list"
  cells_data :: "u8 list"

definition deserializeBoc :: "BocHeader \<Rightarrow> error + (ParsedCell list \<times> nat option list)" where
  "deserializeBoc header =
     andThen (readCells (cells_num header) (size_bytes header) (cells_data header) []) (\<lambda>cells_array.
     andThen (resolveRefs (cells_num header) cells_array) (\<lambda>cells_array.
       Inr (cells_array,
            map (\<lambda>rootCell. if rootCell < length cells_array then Some rootCell else None)
              (root_list header))))"

section \<open>Basic facts\<close>

lemma checkRange_simps:
  "n \<le> length_bits b \<Longrightarrow> checkRange b n = Inr ()"
  "n > length_bits b \<Longrightarrow> checkRange b n = Inl BitStringOverflow"
  by (simp_all add: checkRange_def)

lemma ceil_div8: "(c + 7) div 8 = c div 8 + (if c mod 8 = 0 then 0 else (1::nat))"
proof -
  define q r where "q = c div 8" and "r = c mod 8"
  then have c: "c = 8 * q + r" and r: "r < 8" by simp_all
  have "(8 * q + r + 7) div 8 = q + (r + 7) div 8"
    by (simp add: add.assoc)
  moreover have "(r + 7) div 8 = (if r = 0 then 0 else 1)"
  proof (cases "r = 0")
    case False
    then have "r + 7 = 8 + (r - 1)" "r - 1 < 8" using r by simp_all
    then show ?thesis using False by (simp del: One_nat_def)
  qed simp
  ultimately show ?thesis unfolding c using r by (simp add: q_def[symmetric])
qed

section \<open>Bits of the buffer\<close>

lemma getBit_iff: "getBit a n \<longleftrightarrow> n div 8 < length a \<and> bit (a ! (n div 8)) (7 - n mod 8)"
  by (simp add: getBit_def bitMask_def push_bit_of_1 and_exp_eq_0_iff_not_bit)

lemma bit_pos_eq: "p div 8 = n div 8 \<Longrightarrow> (7 - p mod 8 = 7 - n mod 8) = (p = (n::nat))"
proof -
  assume a: "p div 8 = n div 8"
  have "p mod 8 < 8" "n mod 8 < 8" by simp_all
  then have "(7 - p mod 8 = 7 - n mod 8) = (p mod 8 = n mod 8)" by linarith
  also have "\<dots> = (p = n)" using a by (metis div_mult_mod_eq)
  finally show ?thesis .
qed

lemma getBit_on:
  assumes "n div 8 < length a"
  shows "getBit (a[n div 8 := (a ! (n div 8)) OR bitMask n]) p = (p = n \<or> getBit a p)"
proof (cases "p div 8 = n div 8")
  case True
  have "7 - p mod 8 < 8" by simp
  then show ?thesis using assms True bit_pos_eq [OF True]
    by (auto simp add: getBit_iff bitMask_def bit_or_iff bit_exp_iff possible_bit_word)
next
  case False
  then have "p \<noteq> n" by auto
  with False show ?thesis by (simp add: getBit_iff)
qed

lemma getBit_off:
  assumes "n div 8 < length a"
  shows "getBit (a[n div 8 := (a ! (n div 8)) AND NOT (bitMask n)]) p = (p \<noteq> n \<and> getBit a p)"
proof (cases "p div 8 = n div 8")
  case True
  have "7 - p mod 8 < 8" by simp
  then show ?thesis using assms True bit_pos_eq [OF True]
    by (auto simp add: getBit_iff bitMask_def bit_and_iff bit_not_iff bit_exp_iff possible_bit_word)
next
  case False
  then have "p \<noteq> n" by auto
  with False show ?thesis by (simp add: getBit_iff)
qed

lemma div8_less_ceil: "c < L \<Longrightarrow> c div 8 < (L + 7) div (8::nat)"
proof -
  assume "c < L"
  then have "(c + 8) div 8 \<le> (L + 7) div 8" by (intro div_le_mono) simp
  then show ?thesis by simp
qed

lemma writeBit_ok:
  assumes "cursor b \<le> length_bits b" "cursor b < 8 * length (array b)"
  shows "\<exists>b'. writeBit v b = Inr b' \<and> cursor b' = cursor b + 1 \<and> length_bits b' = length_bits b
     \<and> length (array b') = length (array b)
     \<and> (\<forall>p. get b' p = (if p = cursor b then v else get b p))"
proof -
  have "cursor b div 8 < length (array b)"
    using assms(2) by (simp add: div_less_iff_less_mult mult.commute)
  then show ?thesis
    using assms(1)
    by (cases v) (auto simp: writeBit_def on_def off_def checkRange_def get_def getBit_on getBit_off)
qed

lemma writeBitArray_ok:
  assumes "vs \<noteq> [] \<Longrightarrow>
     cursor b + length vs \<le> length_bits b + 1 \<and> cursor b + length vs \<le> 8 * length (array b)"
  shows "\<exists>b'. writeBitArray vs b = Inr b' \<and> cursor b' = cursor b + length vs
     \<and> length_bits b' = length_bits b \<and> length (array b') = length (array b)
     \<and> (\<forall>p. get b' p =
           (if cursor b \<le> p \<and> p < cursor b + length vs then vs ! (p - cursor b) else get b p))"
  using assms
proof (induction vs arbitrary: b)
  case Nil
  then show ?case by auto
next
  case (Cons v vs)
  then have room: "cursor b + Suc (length vs) \<le> length_bits b + 1"
    "cursor b + Suc (length vs) \<le> 8 * length (array b)" by simp_all
  then have "cursor b \<le> length_bits b" "cursor b < 8 * length (array b)" by simp_all
  from writeBit_ok [OF this, of v]
  obtain b1 where b1: "writeBit v b = Inr b1" "cursor b1 = cursor b + 1"
    "length_bits b1 = length_bits b" "length (array b1) = length (array b)"
    "\<forall>p. get b1 p = (if p = cursor b then v else get b p)" by blast
  have "vs \<noteq> [] \<Longrightarrow>
     cursor b1 + length vs \<le> length_bits b1 + 1 \<and> cursor b1 + length vs \<le> 8 * length (array b1)"
    using room b1 by simp
  from Cons.IH [OF this]
  obtain b2 where b2: "writeBitArray vs b1 = Inr b2" "cursor b2 = cursor b1 + length vs"
    "length_bits b2 = length_bits b1" "length (array b2) = length (array b1)"
    "\<forall>p. get b2 p =
       (if cursor b1 \<le> p \<and> p < cursor b1 + length vs then vs ! (p - cursor b1) else get b1 p)"
    by blast
  have "get b2 p =
      (if cursor b \<le> p \<and> p < cursor b + length (v # vs) then (v # vs) ! (p - cursor b) else get b p)" for p
  proof (cases "p = cursor b")
    case True
    then show ?thesis using b1 b2 by simp
  next
    case False
    then have "(v # vs) ! (p - cursor b) = vs ! (p - cursor b1)" if "cursor b1 \<le> p"
      using that b1(2) by (simp add: nth_Cons')
    then show ?thesis using False b1 b2 by auto
  qed
  then show ?case using b1 b2 by simp
qed

lemma writeUint_loop_eq: "writeUint_loop s i k b = writeBitArray (map (isOne s) [i..<i + k]) b"
proof (induction k arbitrary: i b)
  case 0
  then show ?case by simp
next
  case (Suc k)
  have "[i..<i + Suc k] = i # [Suc i..<Suc i + k]" by (simp add: upt_conv_Cons)
  then show ?case using Suc by (simp cong: andThen_cong)
qed

lemma topUp_loop_eq: "topUp_loop n b = writeBitArray (replicate n False) b"
  by (induction n arbitrary: b) (simp_all cong: andThen_cong)

lemma wellFormed_room:
  assumes "cursor b + k \<le> length_bits b" "wellFormed b"
  shows "cursor b + k \<le> length_bits b + 1 \<and> cursor b + k \<le> 8 * length (array b)"
proof -
  have "length_bits b \<le> 8 * ((length_bits b + 7) div 8)" by (simp add: ceil_div8) presburger
  then show ?thesis using assms by (simp add: wellFormed_def)
qed

lemma writeUint_loop_ok:
  assumes "cursor b + k \<le> length_bits b" "wellFormed b"
  shows "\<exists>b'. writeUint_loop s i k b = Inr b' \<and> cursor b' = cursor b + k
     \<and> length_bits b' = length_bits b \<and> wellFormed b'
     \<and> (\<forall>p. get b' p = (if cursor b \<le> p \<and> p < cursor b + k then isOne s (i + (p - cursor b)) else get b p))"
proof -
  let ?vs = "map (isOne s) [i..<i + k]"
  have "?vs \<noteq> [] \<Longrightarrow>
     cursor b + length ?vs \<le> length_bits b + 1 \<and> cursor b + length ?vs \<le> 8 * length (array b)"
    using wellFormed_room [OF assms] by simp
  from writeBitArray_ok [OF this]
  obtain b' where b': "writeBitArray ?vs b = Inr b'" "cursor b' = cursor b + length ?vs"
    "length_bits b' = length_bits b" "length (array b') = length (array b)"
    "\<forall>p. get b' p =
       (if cursor b \<le> p \<and> p < cursor b + length ?vs then ?vs ! (p - cursor b) else get b p)"
    by blast
  have "wellFormed b'" using assms(2) b' by (simp add: wellFormed_def)
  moreover have "get b' p = (if cursor b \<le> p \<and> p < cursor b + k then isOne s (i + (p - cursor b)) else get b p)" for p
  proof (cases "cursor b \<le> p \<and> p < cursor b + k")
    case True
    then have "p - cursor b < k" by linarith
    then have "?vs ! (p - cursor b) = isOne s (i + (p - cursor b))" by simp
    then show ?thesis using b'(5) True by simp
  next
    case False
    then show ?thesis using b'(5) by auto
  qed
  ultimately show ?thesis using b' by (simp add: writeUint_loop_eq)
qed

lemma writeBit_inside:
  assumes "cursor b < length_bits b" "wellFormed b"
  shows "\<exists>b'. writeBit v b = Inr b' \<and> cursor b' = cursor b + 1 \<and> length_bits b' = length_bits b
     \<and> wellFormed b' \<and> (\<forall>p. get b' p = (if p = cursor b then v else get b p))"
proof -
  have "cursor b + 1 \<le> length_bits b" using assms by simp
  from wellFormed_room [OF this assms(2)]
  have "cursor b \<le> length_bits b" "cursor b < 8 * length (array b)" by simp_all
  from writeBit_ok [OF this, of v] show ?thesis using assms(2) by (auto simp: wellFormed_def)
qed

lemma loadUint_loop_ok:
  assumes "readCursor s + k \<le> s_length s"
  shows "loadUint_loop k acc s =
    Inr (acc @ map (\<lambda>j. if getBit (s_array s) (readCursor s + j) then CHR ''1'' else CHR ''0'') [0..<k],
         set_readCursor (readCursor s + k) s)"
  using assms
proof (induction k arbitrary: acc s)
  case 0
  then show ?case by (cases s) (simp add: set_readCursor_def)
next
  case (Suc k)
  let ?s1 = "set_readCursor (readCursor s + 1) s"
  have lb: "loadBit s = Inr (getBit (s_array s) (readCursor s), ?s1)"
    using Suc.prems by (simp add: loadBit_def Slice_get_def Slice_checkRange_def)
  have s1: "readCursor ?s1 = readCursor s + 1" "s_length ?s1 = s_length s" "s_array ?s1 = s_array s"
    by (simp_all add: set_readCursor_def)
  have "readCursor ?s1 + k \<le> s_length ?s1" using Suc.prems s1 by simp
  note IH = Suc.IH [OF this]
  have m: "map (\<lambda>j. if getBit (s_array s) (readCursor s + j) then CHR ''1'' else CHR ''0'') [0..<Suc k]
        = (if getBit (s_array s) (readCursor s) then CHR ''1'' else CHR ''0'')
          # map (\<lambda>j. if getBit (s_array s) (Suc (readCursor s + j)) then CHR ''1'' else CHR ''0'') [0..<k]"
    by (simp only: upt_conv_Cons [of 0 "Suc k"] map_Suc_upt [symmetric]) (simp add: comp_def)
  show ?case
    unfolding loadUint_loop.simps lb andThen_simps prod.case IH s1 m
    by (simp add: set_readCursor_def)
qed


definition binaryString :: "string \<Rightarrow> bool" where
  "binaryString s = (set s \<subseteq> {CHR ''0'', CHR ''1''})"

lemma binaryDigits_binary: "binaryString (binaryDigits n)"
  by (induction n rule: binaryDigits.induct) (subst binaryDigits.simps, auto simp: binaryString_def)

lemma BN_parse2_snoc: "BN_parse2 (s @ [c]) = 2 * BN_parse2 s + (if c = CHR ''1'' then 1 else 0)"
  by (simp add: BN_parse2_def)

lemma BN_parse2_binaryDigits: "BN_parse2 (binaryDigits n) = int n"
proof (induction n rule: binaryDigits.induct)
  case (1 n)
  show ?case
  proof (cases "n = 0")
    case True
    then show ?thesis by (simp add: binaryDigits.simps BN_parse2_def)
  next
    case False
    have "2 * (n div 2) + n mod 2 = n" by simp
    then have "int (2 * (n div 2) + n mod 2) = int n" by (rule arg_cong)
    then have "int n = 2 * int (n div 2) + int (n mod 2)"
      by (simp only: of_nat_add of_nat_mult of_nat_numeral)
    moreover have "n mod 2 = 0 \<or> n mod 2 = 1" by auto
    ultimately show ?thesis
      using False 1 by (subst binaryDigits.simps) (auto simp: BN_parse2_snoc simp del: of_nat_mod of_nat_div)
  qed
qed

lemma length_binaryDigits: "length (binaryDigits n) \<le> w \<longleftrightarrow> n < 2 ^ w"
proof (induction n arbitrary: w rule: binaryDigits.induct)
  case (1 n)
  show ?case
  proof (cases "n = 0")
    case True
    then show ?thesis by (simp add: binaryDigits.simps)
  next
    case False
    show ?thesis
    proof (cases w)
      case 0
      then show ?thesis using False by (subst binaryDigits.simps) simp
    next
      case (Suc v)
      have "length (binaryDigits n) = Suc (length (binaryDigits (n div 2)))"
        using False by (subst binaryDigits.simps) simp
      moreover have "n div 2 < 2 ^ v \<longleftrightarrow> n < 2 ^ Suc v" by auto
      ultimately show ?thesis using 1 [OF False, of v] Suc by simp
    qed
  qed
qed

lemma binaryDigits_nonempty: "n \<noteq> 0 \<Longrightarrow> binaryDigits n \<noteq> []"
  by (subst binaryDigits.simps) simp

lemma BN_parse2_zeros: "BN_parse2 (replicate k (CHR ''0'') @ s) = BN_parse2 s"
proof -
  have "foldl (\<lambda>a c. 2 * a + (if c = CHR ''1'' then 1 else 0)) (0::int) (replicate k (CHR ''0'')) = 0"
    by (induction k) simp_all
  then show ?thesis by (simp add: BN_parse2_def)
qed

lemma padLeft_length:
  assumes "0 < length out" "length out \<le> w"
  shows "length (padLeft w out) = w"
proof (cases "length out = w")
  case True
  then show ?thesis using assms by (simp add: padLeft_def)
next
  case False
  with assms have "length out < w" "w - length out < w" by simp_all
  then show ?thesis by (simp add: padLeft_def)
qed

text \<open>The printed form of a number that fits: \<open>w\<close> binary digits that read back as the number.\<close>

lemma BN_toString2_fits:
  assumes "0 \<le> m" "m < 2 ^ w" "0 < w"
  shows "length (BN_toString2 m 1) \<le> w" "length (BN_toString2 m w) = w"
    "binaryString (BN_toString2 m w)" "BN_parse2 (BN_toString2 m w) = m"
proof -
  define out where "out = (if m = 0 then ''0'' else binaryDigits (nat \<bar>m\<bar>))"
  have nat_lt: "nat \<bar>m\<bar> < 2 ^ w" using assms by (simp add: nat_less_iff)
  have len: "0 < length out" "length out \<le> w"
    using assms nat_lt by (auto simp: out_def binaryDigits_nonempty length_binaryDigits)
  have bin: "binaryString out"
    by (simp add: out_def binaryDigits_binary) (simp add: binaryString_def)
  have val: "BN_parse2 out = m"
    using assms by (simp add: out_def BN_parse2_binaryDigits) (simp add: BN_parse2_def)
  have one: "padLeft 1 out = out" by (simp add: padLeft_def)
  show "length (BN_toString2 m 1) \<le> w"
    using assms len one by (simp add: BN_toString2_def out_def [symmetric] Let_def)
  have ts: "BN_toString2 m w = padLeft w out"
    using assms by (simp add: BN_toString2_def out_def [symmetric] Let_def)
  show "length (BN_toString2 m w) = w" unfolding ts using len by (rule padLeft_length)
  show "binaryString (BN_toString2 m w)"
    unfolding ts using bin by (auto simp: padLeft_def binaryString_def Let_def)
  show "BN_parse2 (BN_toString2 m w) = m"
    unfolding ts using val by (simp add: padLeft_def Let_def BN_parse2_zeros)
qed

lemma binaryString_readback:
  assumes "binaryString s"
  shows "map (\<lambda>j. if isOne s j then CHR ''1'' else CHR ''0'') [0..<length s] = s"
proof (rule nth_equalityI)
  show "length (map (\<lambda>j. if isOne s j then CHR ''1'' else CHR ''0'') [0..<length s]) = length s" by simp
next
  fix i assume "i < length (map (\<lambda>j. if isOne s j then CHR ''1'' else CHR ''0'') [0..<length s])"
  then have i: "i < length s" by simp
  then have "s ! i \<in> {CHR ''0'', CHR ''1''}" using assms unfolding binaryString_def by (meson nth_mem subsetD)
  then show "map (\<lambda>j. if isOne s j then CHR ''1'' else CHR ''0'') [0..<length s] ! i = s ! i"
    using i by (auto simp: isOne_def)
qed

text \<open>An unsigned integer that fits is written, and a slice at the old cursor reads it back.\<close>

lemma writeUint_loadUint:
  assumes "0 \<le> m" "m < 2 ^ w" "0 < w" "cursor b + w \<le> length_bits b" "wellFormed b"
    and "new_BN x = Inr m"
  shows "\<exists>b'. writeUint x w b = Inr b' \<and> cursor b' = cursor b + w \<and> length_bits b' = length_bits b
      \<and> wellFormed b' \<and> (\<forall>p < cursor b. get b' p = get b p)
      \<and> loadUint w (Slice (array b') (length_bits b') (cursor b) rs rc)
          = Inr (m, Slice (array b') (length_bits b') (cursor b + w) rs rc)"
proof -
  let ?s = "BN_toString2 m w"
  note fits = BN_toString2_fits [OF assms(1-3)]
  from writeUint_loop_ok [OF assms(4,5), of ?s 0]
  obtain b' where b': "writeUint_loop ?s 0 w b = Inr b'" "cursor b' = cursor b + w"
    "length_bits b' = length_bits b" "wellFormed b'"
    "\<forall>p. get b' p = (if cursor b \<le> p \<and> p < cursor b + w then isOne ?s (0 + (p - cursor b)) else get b p)"
    by blast
  have w: "writeUint x w b = Inr b'"
    using assms(3,6) fits(1) b'(1) by (simp add: writeUint_def)
  let ?sl = "Slice (array b') (length_bits b') (cursor b) rs rc"
  have "readCursor ?sl + w \<le> s_length ?sl" using assms(4) b'(3) by simp
  from loadUint_loop_ok [OF this, of "[]"]
  have "loadUint_loop w [] ?sl =
     Inr (map (\<lambda>j. if getBit (array b') (cursor b + j) then CHR ''1'' else CHR ''0'') [0..<w],
          Slice (array b') (length_bits b') (cursor b + w) rs rc)"
    by (simp add: set_readCursor_def)
  moreover have "map (\<lambda>j. if getBit (array b') (cursor b + j) then CHR ''1'' else CHR ''0'') [0..<w]
      = map (\<lambda>j. if isOne ?s j then CHR ''1'' else CHR ''0'') [0..<length ?s]"
    using b'(5) fits(2) by (simp add: get_def)
  ultimately have "loadUint_loop w [] ?sl = Inr (?s, Slice (array b') (length_bits b') (cursor b + w) rs rc)"
    using binaryString_readback [OF fits(3)] by simp
  then have "loadUint w ?sl = Inr (m, Slice (array b') (length_bits b') (cursor b + w) rs rc)"
    using assms(3) fits(4) by (simp add: loadUint_def)
  moreover have "\<forall>p < cursor b. get b' p = get b p" using b'(5) by simp
  ultimately show ?thesis using w b' by blast
qed


section \<open>Capacity of bit writes\<close>

lemma writeBit_within_capacity:
  "cursor b \<le> length_bits b \<Longrightarrow> \<exists>b'. writeBit v b = Inr b' \<and> cursor b' = cursor b + 1"
  by (simp add: writeBit_def on_def off_def checkRange_def)

lemma writeBit_past_capacity:
  "cursor b > length_bits b \<Longrightarrow> writeBit v b = Inl BitStringOverflow"
  by (simp add: writeBit_def on_def off_def checkRange_def)

text \<open>
  C6. The claim: \<^verbatim>\<open>writeBit\<close> fails whenever the cursor is greater than or equal to the
  capacity. \<^verbatim>\<open>checkRange\<close> compares with \<^verbatim>\<open>n > this.length\<close>, so a write at a cursor equal to
  the capacity goes through: on a \<^verbatim>\<open>new BitString(4)\<close> holding four bits, a fifth
  \<^verbatim>\<open>writeBit(true)\<close> returns normally, sets bit 4 of the buffer and moves the cursor to 5.
\<close>

theorem writeBit_at_capacity_succeeds:
  "writeBitArray [False, False, False, False] (new_BitString 4)
     = Inr \<lparr>array = [0], cursor = 4, length_bits = 4\<rparr> \<and>
   writeBit True \<lparr>array = [0], cursor = 4, length_bits = 4\<rparr>
     = Inr \<lparr>array = [8], cursor = 5, length_bits = 4\<rparr>"
  by (simp add: new_BitString_def writeBit_def on_def off_def checkRange_def bitMask_def)

section \<open>Zero width in \<^verbatim>\<open>writeUint\<close>\<close>

text \<open>
  C5, as claimed: \<^verbatim>\<open>writeUint(0, 0)\<close> is a silent no-op. It is not: the guard
  \<^verbatim>\<open>if (!bitLength) throw new Error("writeUint: no bitLength")\<close> runs first.
\<close>

theorem writeUint_zero_zero_counterexample:
  "writeUint (Number 0) 0 (new_BitString 1023) \<noteq> Inr (new_BitString 1023) \<and>
   writeUint (BN 0) 0 (new_BitString 1023) \<noteq> Inr (new_BitString 1023)"
  by (simp add: writeUint_def)

text \<open>
  C5, amended: \<^verbatim>\<open>writeUint(n, 0)\<close> fails for every integer \<open>n\<close>, zero included and whether
  given as a number or as a \<^verbatim>\<open>BN\<close>, with the error of the guard on \<^verbatim>\<open>bitLength\<close>.
\<close>

theorem writeUint_zero_width_fails: "writeUint n 0 b = Inl NoBitLength"
  by (simp add: writeUint_def)

theorem writeUint_zero_width_fails_witness:
  "writeUint (Number 0) 0 (new_BitString 8) = Inl NoBitLength \<and>
   writeUint (Number 5) 0 (new_BitString 8) = Inl NoBitLength \<and>
   writeUint (BN 5) 0 (new_BitString 8) = Inl NoBitLength"
  using writeUint_zero_width_fails [of "Number 0" "new_BitString 8"]
    writeUint_zero_width_fails [of "Number 5" "new_BitString 8"]
    writeUint_zero_width_fails [of "BN 5" "new_BitString 8"]
  by simp

section \<open>\<^verbatim>\<open>loadRef\<close>\<close>

text \<open>
  C10. \<^verbatim>\<open>loadRef\<close> fails exactly when the ref cursor has reached 4. Below 4, with every
  child slice consumed (ref cursor at or past the number of refs), it returns no slice and
  still advances the ref cursor.
\<close>

theorem loadRef_failure_boundary:
  "(isl (loadRef s) \<longleftrightarrow> refCursor s \<ge> 4) \<and>
   (refCursor s < 4 \<and> length (s_refs s) \<le> refCursor s \<longrightarrow>
      loadRef s = Inr (None, set_refCursor (refCursor s + 1) s))"
  by (simp add: loadRef_def)

theorem loadRef_failure_boundary_witness:
  "isl (loadRef (Slice [] 0 0 [] 4)) \<and> \<not> isl (loadRef (Slice [] 0 0 [] 0)) \<and>
   loadRef (Slice [] 0 0 [] 0) = Inr (None, Slice [] 0 0 [] 1)"
  using loadRef_failure_boundary [of "Slice [] 0 0 [] 4"]
    loadRef_failure_boundary [of "Slice [] 0 0 [] 0"]
  by (simp add: set_refCursor_def)

section \<open>The hex form\<close>

text \<open>
  C9. On the bit string of a fresh cell (capacity 1023), \<^verbatim>\<open>toHex\<close> returns the empty string
  with no bit written, \<^verbatim>\<open>"C_"\<close> after the bit 1, \<^verbatim>\<open>"A"\<close> after the bits 1,0,1,0,
  \<^verbatim>\<open>"B"\<close> after 1,0,1,1 and \<^verbatim>\<open>"BC_"\<close> after 1,0,1,1,1.
\<close>

theorem toHex_fift_examples:
  "toHex (new_BitString 1023) = Inr [] \<and>
   andThen (writeBitArray [True] (new_BitString 1023)) toHex = Inr ''C_'' \<and>
   andThen (writeBitArray [True, False, True, False] (new_BitString 1023)) toHex = Inr ''A'' \<and>
   andThen (writeBitArray [True, False, True, True] (new_BitString 1023)) toHex = Inr ''B'' \<and>
   andThen (writeBitArray [True, False, True, True, True] (new_BitString 1023)) toHex = Inr ''BC_''"
  by code_simp

section \<open>The bits descriptor\<close>

lemma unat_getBitsDescriptor:
  assumes "cursor (bits c) \<le> 1023"
  shows "unat (getBitsDescriptor c) = (cursor (bits c) + 7) div 8 + cursor (bits c) div 8"
proof -
  have "cursor (bits c) div 8 \<le> 127" using assms by simp
  then have "(cursor (bits c) + 7) div 8 + cursor (bits c) div 8 < 2 ^ LENGTH(8)"
    by (simp add: ceil_div8)
  then show ?thesis
    unfolding getBitsDescriptor_def by (simp only: unat_of_nat mod_less)
qed

text \<open>
  C7. For a cell whose bit cursor \<open>c\<close> is at most 1023, the bits descriptor byte is
  \<open>floor(c/8) + ceil(c/8)\<close>; the decoder's \<^verbatim>\<open>Math.ceil(d2 / 2)\<close> of it is \<open>ceil(c/8)\<close>, the
  number of top-upped data bytes, and its \<^verbatim>\<open>!(d2 % 2)\<close> holds (the byte is even) exactly when
  \<open>c\<close> is a multiple of 8.
\<close>

theorem bitsDescriptor_inversion:
  assumes "cursor (bits c) \<le> 1023"
  shows "unat (getBitsDescriptor c) = cursor (bits c) div 8 + (cursor (bits c) + 7) div 8
    \<and> dataBytesize_of (getBitsDescriptor c) = (cursor (bits c) + 7) div 8
    \<and> (fullfilledBytes_of (getBitsDescriptor c) \<longleftrightarrow> cursor (bits c) mod 8 = 0)
    \<and> (even (unat (getBitsDescriptor c)) \<longleftrightarrow> cursor (bits c) mod 8 = 0)"
proof -
  let ?c = "cursor (bits c)"
  have u: "unat (getBitsDescriptor c) = (?c + 7) div 8 + ?c div 8"
    using assms by (rule unat_getBitsDescriptor)
  have half: "((?c + 7) div 8 + ?c div 8 + 1) div 2 = (?c + 7) div 8"
    by (simp add: ceil_div8)
  have "(?c div 8 + ?c div 8) mod 2 = 0" "Suc (?c div 8 + ?c div 8) mod 2 = 1"
    by presburger+
  then have parity: "((?c + 7) div 8 + ?c div 8) mod 2 = 0 \<longleftrightarrow> ?c mod 8 = 0"
    by (simp add: ceil_div8)
  show ?thesis
    using u half parity
    by (simp add: dataBytesize_of_def fullfilledBytes_of_def even_iff_mod_2_eq_zero)
qed

theorem bitsDescriptor_inversion_witness:
  "unat (getBitsDescriptor (Cell (new_BitString 1023\<lparr>cursor := 13\<rparr>) [] False)) = 3
   \<and> dataBytesize_of (getBitsDescriptor (Cell (new_BitString 1023\<lparr>cursor := 13\<rparr>) [] False)) = 2
   \<and> \<not> fullfilledBytes_of (getBitsDescriptor (Cell (new_BitString 1023\<lparr>cursor := 13\<rparr>) [] False))"
  using bitsDescriptor_inversion [of "Cell (new_BitString 1023\<lparr>cursor := 13\<rparr>) [] False"]
  by (simp add: new_BitString_def)

section \<open>Resolving references in the decoder\<close>

lemma resolveCell_backward:
  "Transient r \<in> set rs \<Longrightarrow> r < ci \<Longrightarrow> resolveCell cs ci rs = Inl TopologicalOrderBroken"
proof (induction cs ci rs rule: resolveCell.induct)
  case (2 cells_array ci r' rest)
  then show ?case by (cases "resolveCell cells_array ci rest") auto
qed auto

text \<open>
  C2. The claim: resolving fails whenever a transient index \<open>r\<close> in cell \<open>i\<close> has
  \<open>r \<le> i\<close>, a self-reference included. The test of the code is \<^verbatim>\<open>if (r < ci) throw\<close>, so
  \<open>r = i\<close> passes: a bag of one cell whose only reference index is 0 (descriptor bytes 1
  and 0, index byte 0) decodes without an error to a cell that refers to itself.
\<close>

theorem deserializeBoc_accepts_self_reference:
  "deserializeBoc \<lparr>cells_num = 1, size_bytes = 1, root_list = [0], cells_data = [1, 0, 0]\<rparr>
     = Inr ([\<lparr>p_bits = \<lparr>array = [], cursor = 0, length_bits = 0\<rparr>,
              p_refs = [Resolved 0], p_isExotic = False\<rparr>], [Some 0])"
  by code_simp

section \<open>Signed integers\<close>

text \<open>
  C4, as claimed: for every width \<open>w \<ge> 2\<close> and every integer \<open>n\<close> with
  \<open>-2^(w-1) \<le> n \<le> 2^(w-1) - 1\<close>, \<^verbatim>\<open>writeInt(n, w)\<close> into a bit string with at least \<open>w\<close> free
  bits writes \<open>n\<close>. With \<open>w = 64\<close> and the number \<open>n = 2^62\<close>, which is in the range, on a fresh
  bit string of 1023 bits: \<^verbatim>\<open>writeInt\<close> throws, because \<^verbatim>\<open>new BN(number)\<close> refuses a number of
  magnitude \<open>2^53\<close> or more, and nothing is written.
\<close>

theorem writeInt_unsafe_number_counterexample:
  "(2::nat) \<le> 64 \<and> - (2 ^ (64 - 1)) \<le> (2 ^ 62 :: int) \<and> (2 ^ 62 :: int) \<le> 2 ^ (64 - 1) - 1
   \<and> cursor (new_BitString 1023) + 64 \<le> length_bits (new_BitString 1023)
   \<and> writeInt (Number (2 ^ 62)) 64 (new_BitString 1023) = Inl AssertionFailed"
  by (simp add: writeInt_def new_BitString_def)

text \<open>
  C4, amended. Let \<open>w \<ge> 2\<close> and let \<open>n\<close> be an integer with \<open>-2^(w-1) \<le> n \<le> 2^(w-1) - 1\<close> that is
  given as a \<^verbatim>\<open>BN\<close>, or as a number of magnitude below \<open>2^53\<close> (\<open>new_BN x = Inr n\<close>); for a
  negative \<open>n\<close> let moreover \<open>w - 1\<close> be below \<open>2^53\<close>, as the exponent \<^verbatim>\<open>bitLength - 1\<close> is made a
  \<^verbatim>\<open>BN\<close> too. Then
  \<^verbatim>\<open>writeInt(n, w)\<close> into a bit string with at least \<open>w\<close> free bits succeeds and moves the
  cursor by \<open>w\<close>, and \<^verbatim>\<open>loadInt(w)\<close> on a slice over the written buffer, reading from where
  the write began (position 0 for a fresh bit string), returns \<open>n\<close> and has read \<open>w\<close> bits.
\<close>

theorem writeInt_loadInt_roundtrip:
  assumes "2 \<le> w" "- (2 ^ (w - 1)) \<le> n" "n \<le> 2 ^ (w - 1) - 1"
    and "cursor b + w \<le> length_bits b" "wellFormed b"
    and "new_BN x = Inr n"
    and "n < 0 \<longrightarrow> w - 1 < 2 ^ 53"
  shows "\<exists>b'. writeInt x w b = Inr b' \<and> cursor b' = cursor b + w
     \<and> loadInt w (Slice (array b') (length_bits b') (cursor b) rs rc)
         = Inr (n, Slice (array b') (length_bits b') (cursor b + w) rs rc)"
proof -
  define sign where "sign = (n < 0)"
  define m where "m = (if sign then 2 ^ (w - 1) + n else n)"
  have m: "0 \<le> m" "m < 2 ^ (w - 1)" "0 < w - 1"
    using assms(1-3) by (auto simp: m_def sign_def)
  have e: "new_BN (Number (int (w - 1))) = Inr (int (w - 1))" if "sign"
  proof -
    have "w - 1 < 2 ^ 53" using that assms(7) by (simp add: sign_def)
    then have "int (w - 1) < 2 ^ 53" by (simp add: of_nat_less_numeral_power_cancel_iff)
    then show ?thesis by simp
  qed
  have "cursor b < length_bits b" using assms by simp
  from writeBit_inside [OF this assms(5), of sign]
  obtain b1 where b1: "writeBit sign b = Inr b1" "cursor b1 = cursor b + 1"
    "length_bits b1 = length_bits b" "wellFormed b1"
    "\<forall>p. get b1 p = (if p = cursor b then sign else get b p)" by blast
  have "cursor b1 + (w - 1) \<le> length_bits b1" using assms b1 by simp
  from writeUint_loadUint [OF m this b1(4), of "BN m" rs rc]
  obtain b2 where b2: "writeUint (BN m) (w - 1) b1 = Inr b2" "cursor b2 = cursor b1 + (w - 1)"
    "length_bits b2 = length_bits b1" "\<forall>p < cursor b1. get b2 p = get b1 p"
    "loadUint (w - 1) (Slice (array b2) (length_bits b2) (cursor b1) rs rc)
       = Inr (m, Slice (array b2) (length_bits b2) (cursor b1 + (w - 1)) rs rc)"
    by auto
  obtain v where v: "w = Suc v" using assms(1) by (cases w) simp_all
  have ev: "new_BN (Number (int v)) = Inr (int v)" if "sign"
    using e [OF that] by (simp only: v diff_Suc_1)
  have wr: "writeInt x w b = Inr b2"
  proof (cases sign)
    case True
    then have "n < 0" by (simp add: sign_def)
    moreover have "writeBit True b = Inr b1" using b1(1) True by simp
    moreover have "writeUint (BN (2 ^ v + n)) v b1 = Inr b2"
      using b2(1) True by (simp add: m_def v)
    ultimately show ?thesis using assms(1,6) ev [OF True] by (simp add: writeInt_def v)
  next
    case False
    then have "\<not> n < 0" by (simp add: sign_def)
    moreover have "writeBit False b = Inr b1" using b1(1) False by simp
    moreover have "writeUint (BN n) v b1 = Inr b2"
      using b2(1) False by (simp add: m_def v)
    ultimately show ?thesis using assms(1,6) by (simp add: writeInt_def v)
  qed
  have "get b2 (cursor b) = sign" using b1 b2 by simp
  then have bit: "getBit (array b2) (cursor b) = sign" by (simp add: get_def)
  let ?sl = "Slice (array b2) (length_bits b2) (cursor b) rs rc"
  have "cursor b \<le> length_bits b2" using assms b1 b2 by simp
  then have lb: "loadBit ?sl = Inr (sign, Slice (array b2) (length_bits b2) (cursor b1) rs rc)"
    using bit b1(2) by (simp add: loadBit_def Slice_get_def Slice_checkRange_def set_readCursor_def)
  have val: "(if sign then m - 2 ^ (w - 1) else m) = n" by (simp add: m_def)
  have c: "cursor b1 + (w - 1) = cursor b + w" using assms(1) b1(2) by simp
  have lu: "loadUint v (Slice (array b2) (length_bits b2) (cursor b1) rs rc)
       = Inr (m, Slice (array b2) (length_bits b2) (cursor b + w) rs rc)"
    using b2(5) c by (simp add: v)
  have "loadInt w ?sl = Inr (n, Slice (array b2) (length_bits b2) (cursor b + w) rs rc)"
  proof (cases sign)
    case True
    have "m - 2 ^ v = n" using True by (simp add: m_def v)
    then show ?thesis using True assms(1) lb lu ev [OF True] by (simp add: loadInt_def v)
  next
    case False
    then have "m = n" by (simp add: m_def)
    then show ?thesis using False assms(1) lb lu by (simp add: loadInt_def v)
  qed
  moreover have "cursor b2 = cursor b + w" using assms(1) b1(2) b2(2) by simp
  ultimately show ?thesis using wr by blast
qed

theorem writeInt_loadInt_roundtrip_witness:
  "(\<exists>b'. writeInt (Number (- 5)) 8 (new_BitString 1023) = Inr b' \<and> cursor b' = 8
     \<and> loadInt 8 (Slice (array b') (length_bits b') 0 [] 0)
         = Inr (- 5, Slice (array b') (length_bits b') 8 [] 0))
   \<and> (\<exists>b'. writeInt (BN (2 ^ 62)) 64 (new_BitString 1023) = Inr b' \<and> cursor b' = 64
     \<and> loadInt 64 (Slice (array b') (length_bits b') 0 [] 0)
         = Inr (2 ^ 62, Slice (array b') (length_bits b') 64 [] 0))"
  using writeInt_loadInt_roundtrip [of 8 "- 5" "new_BitString 1023" "Number (- 5)" "[]" 0]
    writeInt_loadInt_roundtrip [of 64 "2 ^ 62" "new_BitString 1023" "BN (2 ^ 62)" "[]" 0]
  by (simp add: new_BitString_def wellFormed_def)


section \<open>Top-upped bytes\<close>

lemma get_cursor_update [simp]: "get (b\<lparr>cursor := c\<rparr>) p = get b p"
  by (simp add: get_def)

lemma findEndBit_found:
  assumes "k < cursor b" "cursor b - k \<le> fuel" "get b k"
    and "\<forall>p. k < p \<and> p < cursor b \<longrightarrow> \<not> get b p"
  shows "findEndBit fuel b = off k (b\<lparr>cursor := k\<rparr>)"
  using assms
proof (induction fuel arbitrary: b)
  case 0
  then show ?case by simp
next
  case (Suc fuel)
  let ?b' = "b\<lparr>cursor := cursor b - 1\<rparr>"
  show ?case
  proof (cases "cursor b - 1 = k")
    case True
    then show ?thesis using Suc.prems(3) by (simp add: Let_def)
  next
    case False
    with Suc.prems(1) have lt: "k < cursor b - 1" by simp
    then have "\<not> get b (cursor b - 1)" using Suc.prems(4) by simp
    moreover have "findEndBit fuel ?b' = off k (?b'\<lparr>cursor := k\<rparr>)"
    proof (rule Suc.IH)
      show "k < cursor ?b'" using lt by simp
      show "cursor ?b' - k \<le> fuel" using Suc.prems(2) lt by simp
      show "get ?b' k" using Suc.prems(3) by simp
      show "\<forall>p. k < p \<and> p < cursor ?b' \<longrightarrow> \<not> get ?b' p" using Suc.prems(4) by auto
    qed
    ultimately show ?thesis by (simp add: Let_def)
  qed
qed

lemma getBit_take: "p div 8 < m \<Longrightarrow> getBit (take m a) p = getBit a p"
  by (simp add: getBit_def)

lemma ceil8_bounds: "c \<le> 8 * ((c + 7) div 8)" "8 * ((c + 7) div 8) < c + 8" for c :: nat
  by (simp_all add: ceil_div8) presburger+

lemma ceil8_mono: "c \<le> L \<Longrightarrow> (c + 7) div 8 \<le> (L + 7) div (8::nat)"
  by (intro div_le_mono) simp

lemma off_result:
  assumes "n \<le> length_bits b" "n div 8 < length (array b)"
  shows "\<exists>b'. off n b = Inr b' \<and> cursor b' = cursor b \<and> (\<forall>p. get b' p = (p \<noteq> n \<and> get b p))"
  using assms by (auto simp: off_def checkRange_def get_def getBit_off)

lemma cell_capacity_tops_up:
  "cursor B \<le> 1023 \<Longrightarrow> length_bits B = 1023 \<Longrightarrow> 8 * ((cursor B + 7) div 8) \<le> length_bits B + 1"
  by simp

text \<open>
  C3, as claimed: the round trip holds for every bit string of capacity at most 1023 and
  every cursor up to the capacity. It does not: \<^verbatim>\<open>getTopUppedArray\<close> pads a clone of the bit
  string with \<^verbatim>\<open>writeBit\<close>, which checks the capacity, so on a \<^verbatim>\<open>new BitString(5)\<close> holding
  three bits the padding up to bit 7 throws.
\<close>

theorem topUpped_roundtrip_counterexample:
  "writeBitArray [True, True, True] (new_BitString 5) = Inr \<lparr>array = [224], cursor = 3, length_bits = 5\<rparr>
   \<and> getTopUppedArray \<lparr>array = [224], cursor = 3, length_bits = 5\<rparr> = Inl BitStringOverflow"
  by code_simp

text \<open>
  C3, amended: for every bit string whose buffer has \<open>ceil(capacity/8)\<close> bytes and whose
  cursor \<open>k\<close> is at most the capacity, if \<open>k\<close> is a multiple of 8 or the padded length
  \<open>8 * ceil(k/8)\<close> is at most the capacity plus one (as it always is for the capacity 1023 of a
  cell, by \<open>cell_capacity_tops_up\<close>, and for a capacity that is a multiple of 8), then
  \<^verbatim>\<open>getTopUppedArray\<close> succeeds and \<^verbatim>\<open>setTopUppedArray\<close> of its result with the flag
  \<open>k % 8 == 0\<close>, on any bit string, succeeds with cursor \<open>k\<close> and the same bit at every
  position below \<open>k\<close>.
\<close>

theorem topUpped_roundtrip:
  assumes "wellFormed B" "cursor B \<le> length_bits B"
    and "cursor B mod 8 = 0 \<or> 8 * ((cursor B + 7) div 8) \<le> length_bits B + 1"
  shows "\<exists>tu b'. getTopUppedArray B = Inr tu
     \<and> setTopUppedArray tu (cursor B mod 8 = 0) b0 = Inr b'
     \<and> cursor b' = cursor B \<and> (\<forall>p < cursor B. get b' p = get B p)"
proof -
  define k m where "k = cursor B" and "m = (cursor B + 7) div 8"
  have m_le: "m \<le> length (array B)"
    using assms(1,2) unfolding m_def wellFormed_def by (simp add: ceil8_mono)
  have km: "k \<le> 8 * m" "8 * m < k + 8" unfolding k_def m_def by (rule ceil8_bounds)+
  have inside: "p div 8 < m" if "p < 8 * m" for p
    using that by (simp add: div_less_iff_less_mult mult.commute)
  show ?thesis
  proof (cases "k mod 8 = 0")
    case True
    then have "8 * m = k" unfolding k_def m_def by (simp add: ceil_div8) presburger
    then have tu: "getTopUppedArray B = Inr (take m (array B))"
      by (simp add: getTopUppedArray_def clone_def Let_def k_def m_def)
    let ?b' = "b0\<lparr>length_bits := length (take m (array B)) * 8, array := take m (array B),
                  cursor := length (take m (array B)) * 8\<rparr>"
    have "setTopUppedArray (take m (array B)) (cursor B mod 8 = 0) b0 = Inr ?b'"
      using True by (simp add: setTopUppedArray_def Let_def k_def)
    moreover have "cursor ?b' = cursor B" using m_le \<open>8 * m = k\<close> by (simp add: k_def min_def)
    moreover have "\<forall>p < cursor B. get ?b' p = get B p"
      using inside \<open>8 * m = k\<close> by (simp add: get_def getBit_take k_def)
    ultimately show ?thesis using tu by blast
  next
    case False
    then have room: "8 * m \<le> length_bits B + 1" using assms(3) by (simp add: k_def m_def)
    have klt: "k < 8 * m" using False km(1) by (cases "k = 8 * m") auto
    define vs where "vs = True # replicate (8 * m - k - 1) False"
    have len_vs: "k + length vs = 8 * m" using klt by (simp add: vs_def)
    let ?ret = "clone B"
    have ret: "cursor ?ret = k" "length_bits ?ret = length_bits B" "array ?ret = array B"
      by (simp_all add: clone_def k_def)
    have "vs \<noteq> [] \<Longrightarrow> cursor ?ret + length vs \<le> length_bits ?ret + 1 \<and>
        cursor ?ret + length vs \<le> 8 * length (array ?ret)"
      using room m_le len_vs by (simp add: ret)
    from writeBitArray_ok [OF this]
    obtain r where r: "writeBitArray vs ?ret = Inr r" "cursor r = 8 * m"
      "length (array r) = length (array B)"
      "\<forall>p. get r p = (if k \<le> p \<and> p < 8 * m then vs ! (p - k) else get B p)"
      using len_vs by (auto simp: ret get_def)
    have tu: "getTopUppedArray B = Inr (take m (array r))"
    proof -
      have tu_eq: "(cursor ?ret + 7) div 8 * 8 - cursor ?ret = 8 * m - k"
        by (simp add: ret m_def k_def mult.commute)
      have "8 * m - k > 0" using klt by simp
      moreover have "andThen (writeBit True ?ret) (topUp_loop (8 * m - k - 1)) = Inr r"
        using r(1) by (simp add: vs_def topUp_loop_eq cong: andThen_cong)
      moreover have "(cursor r + 7) div 8 = m" using r(2) by simp
      ultimately show ?thesis
        unfolding getTopUppedArray_def Let_def tu_eq by simp
    qed
    let ?tu = "take m (array r)"
    have len_tu: "length ?tu = m" using m_le r(3) by simp
    define b1 where "b1 = b0\<lparr>length_bits := 8 * m, array := ?tu, cursor := 8 * m\<rparr>"
    have get_b1: "get b1 p = get r p" if "p < 8 * m" for p
      using inside [OF that] by (simp add: b1_def get_def getBit_take)
    have "m \<noteq> 0" using klt by auto
    then have set: "setTopUppedArray ?tu (cursor B mod 8 = 0) b0 = findEndBit 7 b1"
      using False len_tu by (simp add: setTopUppedArray_def Let_def k_def b1_def mult.commute)
    have "findEndBit 7 b1 = off k (b1\<lparr>cursor := k\<rparr>)"
    proof (rule findEndBit_found)
      show "k < cursor b1" using klt by (simp add: b1_def)
      show "cursor b1 - k \<le> 7" using km(2) by (simp add: b1_def)
      show "get b1 k" using get_b1 [OF klt] r(4) klt by (simp add: vs_def)
      show "\<forall>p. k < p \<and> p < cursor b1 \<longrightarrow> \<not> get b1 p"
      proof (intro allI impI)
        fix p assume p: "k < p \<and> p < cursor b1"
        then have p8: "p < 8 * m" by (simp add: b1_def)
        from p p8 have "p - Suc k < 8 * m - Suc k" by linarith
        then have "replicate (8 * m - Suc k) False ! (p - Suc k) = False" by (rule nth_replicate)
        with p have "vs ! (p - k) = False"
          by (simp add: vs_def nth_Cons')
        then show "\<not> get b1 p" using get_b1 [OF p8] r(4) p p8 by simp
      qed
    qed
    moreover
    have "k \<le> length_bits (b1\<lparr>cursor := k\<rparr>)" "k div 8 < length (array (b1\<lparr>cursor := k\<rparr>))"
      using km(1) inside [OF klt] len_tu by (simp_all add: b1_def)
    from off_result [OF this]
    obtain b' where b': "off k (b1\<lparr>cursor := k\<rparr>) = Inr b'" "cursor b' = k"
      "\<forall>p. get b' p = (p \<noteq> k \<and> get b1 p)" by auto
    have "\<forall>p < cursor B. get b' p = get B p"
    proof (intro allI impI)
      fix p assume "p < cursor B"
      then have p: "p < k" by (simp add: k_def)
      then have "get b' p = get b1 p" using b'(3) by simp
      also have "\<dots> = get r p" using get_b1 [of p] p klt by simp
      also have "\<dots> = get B p" using r(4) p by simp
      finally show "get b' p = get B p" .
    qed
    ultimately show ?thesis using tu set b' by (auto simp: k_def)
  qed
qed

theorem topUpped_roundtrip_witness:
  "\<exists>tu b'. getTopUppedArray \<lparr>array = [224, 128], cursor = 11, length_bits = 15\<rparr> = Inr tu
     \<and> setTopUppedArray tu False (new_BitString 1023) = Inr b'
     \<and> cursor b' = 11 \<and> (\<forall>p < 11. get b' p = get \<lparr>array = [224, 128], cursor = 11, length_bits = 15\<rparr> p)"
  using topUpped_roundtrip [of "\<lparr>array = [224, 128], cursor = 11, length_bits = 15\<rparr>" "new_BitString 1023"]
  by (simp add: wellFormed_def)

section \<open>Positions in a list\<close>

text \<open>
  The topological order of the serializer is an array in which a cell is looked up by position;
  \<open>indexOf x xs\<close> is the position of the first \<open>x\<close> in \<open>xs\<close> (and \<open>length xs\<close> when there is none),
  \<open>before xs x y\<close> says that \<open>x\<close> stands at a smaller position than \<open>y\<close>.
\<close>

primrec indexOf :: "'a \<Rightarrow> 'a list \<Rightarrow> nat" where
  "indexOf x [] = 0"
| "indexOf x (y # ys) = (if x = y then 0 else Suc (indexOf x ys))"

lemma indexOf_less: "indexOf x xs < length xs \<longleftrightarrow> x \<in> set xs"
  by (induction xs) auto

lemma indexOf_le: "indexOf x xs \<le> length xs"
  by (induction xs) auto

lemma indexOf_notin: "x \<notin> set xs \<Longrightarrow> indexOf x xs = length xs"
  by (induction xs) auto

lemma nth_indexOf: "x \<in> set xs \<Longrightarrow> xs ! indexOf x xs = x"
  by (induction xs) auto

lemma indexOf_nth: "distinct xs \<Longrightarrow> i < length xs \<Longrightarrow> indexOf (xs ! i) xs = i"
  by (induction xs arbitrary: i) (auto simp: nth_Cons')

lemma indexOf_append:
  "indexOf x (xs @ ys) = (if x \<in> set xs then indexOf x xs else length xs + indexOf x ys)"
  by (induction xs) auto

lemma indexOf_remove1:
  "x \<noteq> t \<Longrightarrow> indexOf x (remove1 t xs) =
     (if indexOf t xs < indexOf x xs then indexOf x xs - 1 else indexOf x xs)"
  by (induction xs) auto

lemma indexOf_map_inj:
  "inj_on f (insert x (set xs)) \<Longrightarrow> indexOf (f x) (map f xs) = indexOf x xs"
  by (induction xs) (auto simp: inj_on_def)

lemma remove1_take_drop:
  "distinct xs \<Longrightarrow> x \<in> set xs \<Longrightarrow> take (indexOf x xs) xs @ drop (Suc (indexOf x xs)) xs = remove1 x xs"
  by (induction xs) auto

lemma indexOf_eq_iff: "x \<in> set xs \<Longrightarrow> indexOf x xs = indexOf y xs \<longleftrightarrow> x = y"
  by (induction xs) auto

definition before :: "'a list \<Rightarrow> 'a \<Rightarrow> 'a \<Rightarrow> bool" where
  "before xs x y = (x \<in> set xs \<and> y \<in> set xs \<and> indexOf x xs < indexOf y xs)"

lemma before_append_new: "x \<in> set xs \<Longrightarrow> c \<notin> set xs \<Longrightarrow> before (xs @ [c]) x c"
  by (simp add: before_def indexOf_append indexOf_less)

lemma before_append_old: "before xs x y \<Longrightarrow> before (xs @ [c]) x y"
  by (simp add: before_def indexOf_append)

lemma before_move_last:
  assumes "distinct xs" "t \<in> set xs" "x \<in> set xs" "x \<noteq> t"
  shows "before (remove1 t xs @ [t]) x t"
proof -
  have "x \<in> set (remove1 t xs)" "t \<notin> set (remove1 t xs)" using assms by simp_all
  then show ?thesis by (rule before_append_new)
qed

lemma before_move_others:
  assumes "before xs x y" "x \<noteq> t" "y \<noteq> t"
  shows "before (remove1 t xs @ [t]) x y"
proof -
  have "indexOf x xs \<noteq> indexOf t xs"
    using assms by (simp add: before_def indexOf_eq_iff)
  then have "indexOf x (remove1 t xs) < indexOf y (remove1 t xs)"
    using assms by (auto simp: before_def indexOf_remove1)
  moreover have "x \<in> set (remove1 t xs)" "y \<in> set (remove1 t xs)"
    using assms by (simp_all add: before_def)
  ultimately show ?thesis by (simp add: before_def indexOf_append)
qed


section \<open>The walk on lists of cells\<close>

text \<open>
  \<open>allCells c\<close> lists the cells of the graph below \<open>c\<close> (\<open>c\<close> itself and the cells its references
  reach).  \<open>relocate\<close> and \<open>walk\<close> are \<open>moveToTheEnd\<close> and \<open>treeWalk\<close> with the bookkeeping by hashes
  taken away: the order is a list of cells and a cell is found in it by equality.  The two are
  shown to establish the order of the cells; the functions of the code are shown to compute them
  in the next section.
\<close>

function allCells :: "Cell \<Rightarrow> Cell list" where
  "allCells c = c # concat (map allCells (cellsOf (refs c)))"
  by pat_completeness auto
termination
  by (relation "measure size") (auto dest: size_subCell)

declare allCells.simps [simp del]

function relocate :: "Cell \<Rightarrow> Cell list \<Rightarrow> Cell list" where
  "relocate t S = fold relocate (cellsOf (refs t)) (remove1 t S @ [t])"
  by pat_completeness auto
termination
  by (relation "measure (\<lambda>(t, S). size t)") (auto dest: size_subCell)

declare relocate.simps [simp del]

function walk :: "Cell \<Rightarrow> Cell option \<Rightarrow> Cell list \<Rightarrow> Cell list" where
  "walk c p S =
     (if c \<in> set S then
        (case p of
           None \<Rightarrow> S
         | Some q \<Rightarrow> if q \<in> set S \<and> indexOf c S < indexOf q S then relocate c S else S)
      else fold (\<lambda>x. walk x (Some c)) (cellsOf (refs c)) (S @ [c]))"
  by pat_completeness auto
termination
  by (relation "measure (\<lambda>(c, p, S). size c)") (auto dest: size_subCell)

declare walk.simps [simp del]

abbreviation children :: "Cell \<Rightarrow> Cell set" where
  "children c \<equiv> set (cellsOf (refs c))"

abbreviation reach :: "Cell \<Rightarrow> Cell set" where
  "reach c \<equiv> set (allCells c)"

lemma reach_unfold: "reach c = insert c (\<Union>x \<in> children c. reach x)"
  by (subst allCells.simps) simp

lemma reach_self: "c \<in> reach c"
  by (subst allCells.simps) simp

lemma reach_child: "x \<in> children c \<Longrightarrow> reach x \<subseteq> reach c"
  by (subst (2) reach_unfold) auto

lemma reach_size: "u \<in> reach c \<Longrightarrow> size u \<le> size c"
proof (induction c rule: allCells.induct)
  case (1 c)
  from 1(2) have "u = c \<or> (\<exists>x \<in> children c. u \<in> reach x)" by (subst (asm) reach_unfold) auto
  then show ?case
  proof
    assume "\<exists>x \<in> children c. u \<in> reach x"
    then obtain x where x: "x \<in> children c" "u \<in> reach x" by blast
    with 1(1) have "size u \<le> size x" by blast
    with size_subCell [OF x(1)] show ?thesis by simp
  qed simp
qed

lemma reach_child_not_self: "x \<in> children c \<Longrightarrow> c \<notin> reach x"
  using reach_size [of c x] size_subCell [of x c] by auto

lemma reach_trans: "u \<in> reach c \<Longrightarrow> reach u \<subseteq> reach c"
proof (induction c rule: allCells.induct)
  case (1 c)
  from 1(2) have "u = c \<or> (\<exists>x \<in> children c. u \<in> reach x)" by (subst (asm) reach_unfold) auto
  then show ?case
  proof
    assume "\<exists>x \<in> children c. u \<in> reach x"
    then obtain x where x: "x \<in> children c" "u \<in> reach x" by blast
    with 1(1) have "reach u \<subseteq> reach x" by blast
    with reach_child [OF x(1)] show ?thesis by blast
  qed simp
qed

lemma reach_children_closed: "u \<in> reach c \<Longrightarrow> v \<in> children u \<Longrightarrow> v \<in> reach c"
  using reach_trans [of u c] reach_child [of v u] reach_self [of v] by blast


definition relocated :: "Cell \<Rightarrow> Cell list \<Rightarrow> Cell list \<Rightarrow> bool" where
  "relocated t s s' \<longleftrightarrow>
     distinct s' \<and> set s' = set s
     \<and> (\<forall>a b. a \<notin> reach t \<and> before s a b \<longrightarrow> before s' a b)
     \<and> (\<forall>a u. a \<in> set s \<and> a \<notin> reach t \<and> u \<in> reach t \<longrightarrow> before s' a u)
     \<and> (\<forall>u \<in> reach t. \<forall>v \<in> children u. before s' u v)"

definition relocating :: "Cell \<Rightarrow> Cell list \<Rightarrow> Cell list \<Rightarrow> Cell set \<Rightarrow> bool" where
  "relocating t S s G \<longleftrightarrow>
     distinct s \<and> set s = set S
     \<and> (\<forall>a b. a \<notin> reach t \<and> before S a b \<longrightarrow> before s a b)
     \<and> (\<forall>a \<in> set S. a \<notin> reach t \<longrightarrow> before s a t)
     \<and> (\<forall>a \<in> set S. a \<notin> reach t \<longrightarrow> (\<forall>u \<in> G. before s a u))
     \<and> (\<forall>u \<in> G. before s t u)
     \<and> (\<forall>u \<in> G. \<forall>v \<in> children u. before s u v)"

lemma relocatingD:
  assumes "relocating t S s G"
  shows "distinct s" "set s = set S"
    and "\<And>a b. a \<notin> reach t \<Longrightarrow> before S a b \<Longrightarrow> before s a b"
    and "\<And>a. a \<in> set S \<Longrightarrow> a \<notin> reach t \<Longrightarrow> before s a t"
    and "\<And>a u. a \<in> set S \<Longrightarrow> a \<notin> reach t \<Longrightarrow> u \<in> G \<Longrightarrow> before s a u"
    and "\<And>u. u \<in> G \<Longrightarrow> before s t u"
    and "\<And>u v. u \<in> G \<Longrightarrow> v \<in> children u \<Longrightarrow> before s u v"
  using assms unfolding relocating_def by blast+

lemma relocatedD:
  assumes "relocated x s s'"
  shows "distinct s'" "set s' = set s"
    and "\<And>a b. a \<notin> reach x \<Longrightarrow> before s a b \<Longrightarrow> before s' a b"
    and "\<And>a u. a \<in> set s \<Longrightarrow> a \<notin> reach x \<Longrightarrow> u \<in> reach x \<Longrightarrow> before s' a u"
    and "\<And>u v. u \<in> reach x \<Longrightarrow> v \<in> children u \<Longrightarrow> before s' u v"
  using assms unfolding relocated_def by blast+

lemma relocating_base:
  assumes "distinct S" "t \<in> set S"
  shows "relocating t S (remove1 t S @ [t]) {}"
proof -
  have "before (remove1 t S @ [t]) a b" if "a \<notin> reach t" "before S a b" for a b
  proof (cases "b = t")
    case True
    from that have "a \<in> set S" "a \<noteq> t" using reach_self [of t] by (auto simp: before_def)
    with assms True show ?thesis by (simp add: before_move_last)
  next
    case False
    with that show ?thesis using reach_self [of t] by (intro before_move_others) auto
  qed
  moreover have "before (remove1 t S @ [t]) a t" if "a \<in> set S" "a \<notin> reach t" for a
    using that assms reach_self [of t] by (intro before_move_last) auto
  ultimately show ?thesis
    using assms unfolding relocating_def by auto
qed

lemma relocating_step:
  assumes J: "relocating t S s G" and P: "relocated x s s'" and sub: "reach x \<subseteq> reach t" "t \<notin> reach x"
    and tS: "t \<in> set S"
  shows "relocating t S s' (G \<union> reach x)"
proof -
  note J1 = relocatingD(1,2) [OF J] and J2 = relocatingD(3) [OF J]
    and J3 = relocatingD(4) [OF J] and J3' = relocatingD(5) [OF J]
    and J4 = relocatingD(6) [OF J] and J5 = relocatingD(7) [OF J]
  note P1 = relocatedD(1,2) [OF P] and P2 = relocatedD(3) [OF P]
    and P3 = relocatedD(4) [OF P] and P4 = relocatedD(5) [OF P]
  have K2: "before s' a b" if "a \<notin> reach t" "before S a b" for a b
    using that sub J2 P2 by blast
  have K3: "before s' a t" if "a \<in> set S" "a \<notin> reach t" for a
    using that sub J3 P2 by blast
  have K3': "before s' a u" if "a \<in> set S" "a \<notin> reach t" "u \<in> G \<union> reach x" for a u
  proof (cases "u \<in> reach x")
    case True
    with that sub J1 show ?thesis by (intro P3) auto
  next
    case False
    with that sub show ?thesis using J3' P2 by blast
  qed
  have K4: "before s' t u" if "u \<in> G \<union> reach x" for u
  proof (cases "u \<in> reach x")
    case True
    with sub tS J1 show ?thesis by (intro P3) auto
  next
    case False
    with that sub show ?thesis using J4 P2 by blast
  qed
  have K5: "before s' u v" if "u \<in> G \<union> reach x" "v \<in> children u" for u v
  proof (cases "u \<in> reach x")
    case True
    with that show ?thesis by (intro P4)
  next
    case False
    with that show ?thesis using J5 P2 by blast
  qed
  show ?thesis
    unfolding relocating_def
  proof (intro conjI allI impI ballI)
    show "distinct s'" by (rule P1)
    show "set s' = set S" using P1 J1 by simp
  next
    fix a b assume "a \<notin> reach t \<and> before S a b"
    then show "before s' a b" using K2 by blast
  next
    fix a assume "a \<in> set S" "a \<notin> reach t"
    then show "before s' a t" by (rule K3)
  next
    fix a u assume "a \<in> set S" "a \<notin> reach t" "u \<in> G \<union> reach x"
    then show "before s' a u" by (rule K3')
  next
    fix u assume "u \<in> G \<union> reach x"
    then show "before s' t u" by (rule K4)
  next
    fix u v assume "u \<in> G \<union> reach x" "v \<in> children u"
    then show "before s' u v" by (rule K5)
  qed
qed

lemma relocating_fold:
  assumes "\<And>x s. x \<in> set xs \<Longrightarrow> distinct s \<Longrightarrow> reach x \<subseteq> set s \<Longrightarrow> relocated x s (relocate x s)"
    and "relocating t S s G" "\<And>x. x \<in> set xs \<Longrightarrow> reach x \<subseteq> reach t \<and> t \<notin> reach x" "reach t \<subseteq> set S"
  shows "relocating t S (fold relocate xs s) (G \<union> (\<Union>x \<in> set xs. reach x))"
  using assms
proof (induction xs arbitrary: s G)
  case Nil
  then show ?case by simp
next
  case (Cons x xs)
  have tS: "t \<in> set S" using Cons.prems(4) reach_self by blast
  have s: "distinct s" "set s = set S" using Cons.prems(2) unfolding relocating_def by blast+
  have x: "reach x \<subseteq> reach t" "t \<notin> reach x" using Cons.prems(3) by auto
  then have "reach x \<subseteq> set s" using Cons.prems(4) s by blast
  then have "relocated x s (relocate x s)" using Cons.prems(1) s by simp
  from relocating_step [OF Cons.prems(2) this x tS]
  have "relocating t S (relocate x s) (G \<union> reach x)" .
  from Cons.IH [OF _ this _ Cons.prems(4)] Cons.prems(1,3)
  have "relocating t S (fold relocate xs (relocate x s)) (G \<union> reach x \<union> (\<Union>x \<in> set xs. reach x))"
    by simp
  moreover have "G \<union> reach x \<union> (\<Union>x \<in> set xs. reach x) = G \<union> (\<Union>y \<in> set (x # xs). reach y)" by auto
  ultimately show ?case by simp
qed

lemma relocating_final:
  assumes "relocating t S s (\<Union>x \<in> children t. reach x)"
  shows "relocated t S s"
proof -
  let ?G = "\<Union>x \<in> children t. reach x"
  have Dt: "u = t \<or> u \<in> ?G" if "u \<in> reach t" for u
    using that by (subst (asm) reach_unfold) blast
  note J1 = relocatingD(1,2) [OF assms] and J2 = relocatingD(3) [OF assms]
    and J3 = relocatingD(4) [OF assms] and J3' = relocatingD(5) [OF assms]
    and J4 = relocatingD(6) [OF assms] and J5 = relocatingD(7) [OF assms]
  have P3: "before s a u" if "a \<in> set S" "a \<notin> reach t" "u \<in> reach t" for a u
  proof -
    from Dt [OF that(3)] show ?thesis
    proof
      assume "u = t"
      with that show ?thesis by (simp add: J3)
    next
      assume "u \<in> ?G"
      with that show ?thesis by (intro J3')
    qed
  qed
  have P4: "before s u v" if "u \<in> reach t" "v \<in> children u" for u v
  proof -
    from Dt [OF that(1)] show ?thesis
    proof
      assume ut: "u = t"
      with that have "v \<in> ?G" using reach_self [of v] by blast
      with ut show ?thesis by (simp add: J4)
    next
      assume "u \<in> ?G"
      with that show ?thesis by (intro J5)
    qed
  qed
  show ?thesis
    unfolding relocated_def
  proof (intro conjI allI impI ballI)
    show "distinct s" "set s = set S" by (rule J1)+
  next
    fix a b assume "a \<notin> reach t \<and> before S a b"
    then show "before s a b" using J2 by blast
  next
    fix a u assume "a \<in> set S \<and> a \<notin> reach t \<and> u \<in> reach t"
    then show "before s a u" using P3 by blast
  next
    fix u v assume "u \<in> reach t" "v \<in> children u"
    then show "before s u v" by (rule P4)
  qed
qed

lemma relocate_correct: "distinct S \<Longrightarrow> reach t \<subseteq> set S \<Longrightarrow> relocated t S (relocate t S)"
proof (induction t S rule: relocate.induct)
  case (1 t S)
  have tS: "t \<in> set S" using 1(3) reach_self by blast
  have base: "relocating t S (remove1 t S @ [t]) {}" using 1(2) tS by (rule relocating_base)
  have IH: "relocated x s (relocate x s)" if "x \<in> children t" "distinct s" "reach x \<subseteq> set s" for x s
    using 1(1) that by blast
  have sub: "reach x \<subseteq> reach t \<and> t \<notin> reach x" if "x \<in> children t" for x
    using that reach_child reach_child_not_self by blast
  from relocating_fold [of "cellsOf (refs t)" t S, OF IH base sub 1(3)]
  have "relocating t S (fold relocate (cellsOf (refs t)) (remove1 t S @ [t])) (\<Union>x \<in> children t. reach x)"
    by simp
  then have "relocated t S (fold relocate (cellsOf (refs t)) (remove1 t S @ [t]))"
    by (rule relocating_final)
  then show ?case by (subst relocate.simps)
qed


definition seenDone :: "Cell \<Rightarrow> Cell list \<Rightarrow> bool" where
  "seenDone c s \<longleftrightarrow> (\<forall>u \<in> reach c. u \<in> set s \<longrightarrow> (\<forall>v \<in> children u. before s u v))"

definition walked :: "Cell \<Rightarrow> Cell option \<Rightarrow> Cell list \<Rightarrow> Cell list \<Rightarrow> bool" where
  "walked x p s s' \<longleftrightarrow>
     distinct s' \<and> set s' = set s \<union> reach x
     \<and> (\<forall>a b. a \<in> set s \<and> a \<notin> reach x \<and> b \<in> set s' \<and> (b \<in> set s \<longrightarrow> before s a b)
           \<longrightarrow> before s' a b)
     \<and> (\<forall>u \<in> reach x. \<forall>v \<in> children u. before s' u v)
     \<and> (\<forall>q. p = Some q \<and> q \<in> set s \<and> q \<notin> reach x \<longrightarrow> before s' q x)"

definition walking :: "Cell \<Rightarrow> Cell list \<Rightarrow> Cell list \<Rightarrow> Cell set \<Rightarrow> Cell set \<Rightarrow> bool" where
  "walking c S s G C \<longleftrightarrow>
     distinct s \<and> set s = set S \<union> {c} \<union> G
     \<and> (\<forall>a b. a \<in> set S \<and> a \<notin> reach c \<and> b \<in> set s \<and> (b \<in> set S \<longrightarrow> before S a b)
           \<longrightarrow> before s a b)
     \<and> (\<forall>u \<in> G. \<forall>v \<in> children u. before s u v)
     \<and> (\<forall>x \<in> C. before s c x)
     \<and> (\<forall>u \<in> reach c - {c}. u \<in> set s \<longrightarrow> (\<forall>v \<in> children u. before s u v))"

lemma seenDoneD: "seenDone c s \<Longrightarrow> u \<in> reach c \<Longrightarrow> u \<in> set s \<Longrightarrow> v \<in> children u \<Longrightarrow> before s u v"
  unfolding seenDone_def by blast

lemma walkedD:
  assumes "walked x p s s'"
  shows "distinct s'" "set s' = set s \<union> reach x"
    and "\<And>a b. a \<in> set s \<Longrightarrow> a \<notin> reach x \<Longrightarrow> b \<in> set s' \<Longrightarrow> (b \<in> set s \<Longrightarrow> before s a b)
           \<Longrightarrow> before s' a b"
    and "\<And>u v. u \<in> reach x \<Longrightarrow> v \<in> children u \<Longrightarrow> before s' u v"
    and "\<And>q. p = Some q \<Longrightarrow> q \<in> set s \<Longrightarrow> q \<notin> reach x \<Longrightarrow> before s' q x"
  using assms unfolding walked_def by blast+

lemma walkingD:
  assumes "walking c S s G C"
  shows "distinct s" "set s = set S \<union> {c} \<union> G"
    and "\<And>a b. a \<in> set S \<Longrightarrow> a \<notin> reach c \<Longrightarrow> b \<in> set s \<Longrightarrow> (b \<in> set S \<Longrightarrow> before S a b)
           \<Longrightarrow> before s a b"
    and "\<And>u v. u \<in> G \<Longrightarrow> v \<in> children u \<Longrightarrow> before s u v"
    and "\<And>x. x \<in> C \<Longrightarrow> before s c x"
    and "\<And>u v. u \<in> reach c \<Longrightarrow> u \<noteq> c \<Longrightarrow> u \<in> set s \<Longrightarrow> v \<in> children u \<Longrightarrow> before s u v"
  using assms unfolding walking_def by blast+

lemma seenDone_closed: "seenDone c s \<Longrightarrow> c \<in> set s \<Longrightarrow> reach c \<subseteq> set s"
proof (induction c rule: allCells.induct)
  case (1 c)
  have "reach x \<subseteq> set s" if x: "x \<in> children c" for x
  proof -
    have "before s c x" using seenDoneD [OF 1(2) reach_self 1(3) x] .
    then have "x \<in> set s" by (simp add: before_def)
    moreover have "seenDone x s"
      using 1(2) reach_child [OF x] unfolding seenDone_def by blast
    ultimately show ?thesis using 1(1) x by blast
  qed
  then show ?case using 1(3) by (subst reach_unfold) blast
qed

lemma walking_base:
  assumes "distinct S" "c \<notin> set S" "seenDone c S"
  shows "walking c S (S @ [c]) {} {}"
  unfolding walking_def
proof (intro conjI allI impI ballI)
  show "distinct (S @ [c])" using assms by simp
  show "set (S @ [c]) = set S \<union> {c} \<union> {}" by simp
next
  fix a b
  assume h: "a \<in> set S \<and> a \<notin> reach c \<and> b \<in> set (S @ [c]) \<and> (b \<in> set S \<longrightarrow> before S a b)"
  show "before (S @ [c]) a b"
  proof (cases "b \<in> set S")
    case True
    with h show ?thesis by (simp add: before_append_old)
  next
    case False
    with h have "b = c" by simp
    with h assms(2) show ?thesis by (simp add: before_append_new)
  qed
next
  fix u v assume "u \<in> reach c - {c}" "u \<in> set (S @ [c])" "v \<in> children u"
  then have "u \<in> reach c" "u \<in> set S" by auto
  from seenDoneD [OF assms(3) this \<open>v \<in> children u\<close>]
  show "before (S @ [c]) u v" by (rule before_append_old)
qed simp_all

lemma walking_step:
  assumes K: "walking c S s G C" and W: "walked x (Some c) s s'" and x: "x \<in> children c"
  shows "walking c S s' (G \<union> reach x) (insert x C)"
proof -
  note K1 = walkingD(1,2) [OF K] and K2 = walkingD(3) [OF K] and K3 = walkingD(4) [OF K]
    and K4 = walkingD(5) [OF K] and K5 = walkingD(6) [OF K]
  note W1 = walkedD(1,2) [OF W] and W2 = walkedD(3) [OF W] and W4 = walkedD(4) [OF W]
    and W5 = walkedD(5) [OF W]
  have sub: "reach x \<subseteq> reach c" "c \<notin> reach x" using x by (simp_all add: reach_child reach_child_not_self)
  have cs: "c \<in> set s" using K1 by simp
  show ?thesis
    unfolding walking_def
  proof (intro conjI allI impI ballI)
    show "distinct s'" by (rule W1)
    show "set s' = set S \<union> {c} \<union> (G \<union> reach x)" using W1 K1 by auto
  next
    fix a b
    assume h: "a \<in> set S \<and> a \<notin> reach c \<and> b \<in> set s' \<and> (b \<in> set S \<longrightarrow> before S a b)"
    show "before s' a b"
    proof (rule W2)
      show "a \<in> set s" using h K1 by simp
      show "a \<notin> reach x" using h sub by blast
      show "b \<in> set s'" using h by simp
      show "before s a b" if "b \<in> set s" using h that by (intro K2) auto
    qed
  next
    fix u v assume u: "u \<in> G \<union> reach x" and v: "v \<in> children u"
    show "before s' u v"
    proof (cases "u \<in> reach x")
      case True
      then show ?thesis using v by (rule W4)
    next
      case False
      with u have uG: "u \<in> G" by simp
      show ?thesis
      proof (rule W2)
        show "u \<in> set s" using uG K1 by simp
        show "u \<notin> reach x" by (rule False)
        have "before s u v" using uG v by (rule K3)
        then show "before s u v" .
        then show "v \<in> set s'" using W1 by (simp add: before_def)
      qed
    qed
  next
    fix y assume "y \<in> insert x C"
    then show "before s' c y"
    proof
      assume "y = x"
      then show ?thesis using W5 [OF refl cs sub(2)] by simp
    next
      assume yC: "y \<in> C"
      show ?thesis
      proof (rule W2)
        show "c \<in> set s" by (rule cs)
        show "c \<notin> reach x" by (rule sub)
        have "before s c y" using yC by (rule K4)
        then show "before s c y" .
        then show "y \<in> set s'" using W1 by (simp add: before_def)
      qed
    qed
  next
    fix u v assume u: "u \<in> reach c - {c}" "u \<in> set s'" and v: "v \<in> children u"
    show "before s' u v"
    proof (cases "u \<in> reach x")
      case True
      then show ?thesis using v by (rule W4)
    next
      case False
      with u W1 have us: "u \<in> set s" by simp
      show ?thesis
      proof (rule W2)
        show "u \<in> set s" by (rule us)
        show "u \<notin> reach x" by (rule False)
        have "before s u v" using u us v by (intro K5) auto
        then show "before s u v" .
        then show "v \<in> set s'" using W1 by (simp add: before_def)
      qed
    qed
  qed
qed

lemma walking_seenDone:
  assumes "walking c S s G C" "x \<in> children c"
  shows "seenDone x s"
  unfolding seenDone_def
proof (intro ballI impI)
  fix u v assume "u \<in> reach x" "u \<in> set s" "v \<in> children u"
  moreover have "u \<in> reach c" "u \<noteq> c"
    using \<open>u \<in> reach x\<close> assms(2) reach_child reach_child_not_self by blast+
  ultimately show "before s u v" using walkingD(6) [OF assms(1)] by blast
qed

lemma walking_fold:
  assumes "\<And>x s. x \<in> set xs \<Longrightarrow> distinct s \<Longrightarrow> seenDone x s
             \<Longrightarrow> walked x (Some c) s (walk x (Some c) s)"
    and "walking c S s G C" "set xs \<subseteq> children c"
  shows "walking c S (fold (\<lambda>x. walk x (Some c)) xs s) (G \<union> (\<Union>x \<in> set xs. reach x)) (C \<union> set xs)"
  using assms
proof (induction xs arbitrary: s G C)
  case Nil
  then show ?case by simp
next
  case (Cons x xs)
  have x: "x \<in> children c" using Cons.prems(3) by simp
  have "distinct s" using walkingD(1) [OF Cons.prems(2)] .
  moreover have "seenDone x s" using Cons.prems(2) x by (rule walking_seenDone)
  ultimately have "walked x (Some c) s (walk x (Some c) s)" using Cons.prems(1) by simp
  from walking_step [OF Cons.prems(2) this x]
  have "walking c S (walk x (Some c) s) (G \<union> reach x) (insert x C)" .
  from Cons.IH [OF _ this] Cons.prems(1,3)
  have "walking c S (fold (\<lambda>x. walk x (Some c)) xs (walk x (Some c) s))
     (G \<union> reach x \<union> (\<Union>x \<in> set xs. reach x)) (insert x C \<union> set xs)"
    by simp
  moreover have "G \<union> reach x \<union> (\<Union>x \<in> set xs. reach x) = G \<union> (\<Union>y \<in> set (x # xs). reach y)" by auto
  moreover have "insert x C \<union> set xs = C \<union> set (x # xs)" by auto
  ultimately show ?case by simp
qed

lemma walking_final:
  assumes K: "walking c S s (\<Union>x \<in> children c. reach x) (children c)" and cS: "c \<notin> set S"
  shows "walked c p S s"
proof -
  let ?G = "\<Union>x \<in> children c. reach x"
  note K1 = walkingD(1,2) [OF K] and K2 = walkingD(3) [OF K] and K3 = walkingD(4) [OF K]
    and K4 = walkingD(5) [OF K]
  have Dc: "reach c = insert c ?G" by (rule reach_unfold)
  show ?thesis
    unfolding walked_def
  proof (intro conjI allI impI ballI)
    show "distinct s" by (rule K1)
    show "set s = set S \<union> reach c" using K1(2) by (subst Dc) auto
  next
    fix a b
    assume "a \<in> set S \<and> a \<notin> reach c \<and> b \<in> set s \<and> (b \<in> set S \<longrightarrow> before S a b)"
    then show "before s a b" by (intro K2) auto
  next
    fix u v assume u: "u \<in> reach c" and v: "v \<in> children u"
    from u have "u = c \<or> u \<in> ?G" by (subst (asm) Dc) simp
    then show "before s u v"
    proof
      assume "u = c"
      with v show ?thesis by (simp add: K4)
    next
      assume "u \<in> ?G"
      then show ?thesis using v by (rule K3)
    qed
  next
    fix q assume q: "p = Some q \<and> q \<in> set S \<and> q \<notin> reach c"
    show "before s q c"
    proof (rule K2)
      show "q \<in> set S" "q \<notin> reach c" using q by simp_all
      show "c \<in> set s" using K1(2) by simp
      show "before S q c" if "c \<in> set S" using that cS by simp
    qed
  qed
qed

theorem walk_correct: "distinct S \<Longrightarrow> seenDone c S \<Longrightarrow> walked c p S (walk c p S)"
proof (induction c p S rule: walk.induct)
  case (1 c p S)
  show ?case
  proof (cases "c \<in> set S")
    case False
    have base: "walking c S (S @ [c]) {} {}" using 1(2) False 1(3) by (rule walking_base)
    have IH: "walked x (Some c) s (walk x (Some c) s)"
      if "x \<in> set (cellsOf (refs c))" "distinct s" "seenDone x s" for x s
      using 1(1) False that by blast
    from walking_fold [of "cellsOf (refs c)" c S, OF IH base]
    have "walking c S (fold (\<lambda>x. walk x (Some c)) (cellsOf (refs c)) (S @ [c]))
        (\<Union>x \<in> children c. reach x) (children c)"
      by simp
    then have "walked c p S (fold (\<lambda>x. walk x (Some c)) (cellsOf (refs c)) (S @ [c]))"
      using False by (rule walking_final)
    then show ?thesis using False by (subst walk.simps) simp
  next
    case True
    have closed: "reach c \<subseteq> set S" using 1(3) True by (rule seenDone_closed)
    show ?thesis
    proof (cases "\<exists>q. p = Some q \<and> q \<in> set S \<and> indexOf c S < indexOf q S")
      case moved: True
      then obtain q where q: "p = Some q" "q \<in> set S" "indexOf c S < indexOf q S" by blast
      then have eq: "walk c p S = relocate c S" using True by (subst walk.simps) simp
      have R: "relocated c S (relocate c S)" using 1(2) closed by (rule relocate_correct)
      note R1 = relocatedD(1,2) [OF R] and R2 = relocatedD(3) [OF R] and R3 = relocatedD(4) [OF R]
        and R4 = relocatedD(5) [OF R]
      show ?thesis
        unfolding eq walked_def
      proof (intro conjI allI impI ballI)
        show "distinct (relocate c S)" by (rule R1)
        show "set (relocate c S) = set S \<union> reach c" using R1 closed by auto
      next
        fix a b
        assume h: "a \<in> set S \<and> a \<notin> reach c \<and> b \<in> set (relocate c S) \<and> (b \<in> set S \<longrightarrow> before S a b)"
        then have "before S a b" using R1 by simp
        with h show "before (relocate c S) a b" by (intro R2) auto
      next
        fix u v assume "u \<in> reach c" "v \<in> children u"
        then show "before (relocate c S) u v" by (rule R4)
      next
        fix q' assume "p = Some q' \<and> q' \<in> set S \<and> q' \<notin> reach c"
        then show "before (relocate c S) q' c" using reach_self [of c] by (intro R3) auto
      qed
    next
      case stay: False
      then have eq: "walk c p S = S" using True by (subst walk.simps) (auto split: option.splits)
      show ?thesis
        unfolding eq walked_def
      proof (intro conjI allI impI ballI)
        show "distinct S" by (rule 1(2))
        show "set S = set S \<union> reach c" using closed by auto
      next
        fix a b
        assume "a \<in> set S \<and> a \<notin> reach c \<and> b \<in> set S \<and> (b \<in> set S \<longrightarrow> before S a b)"
        then show "before S a b" by simp
      next
        fix u v assume "u \<in> reach c" "v \<in> children u"
        then show "before S u v" using closed by (intro seenDoneD [OF 1(3)]) auto
      next
        fix q assume q: "p = Some q \<and> q \<in> set S \<and> q \<notin> reach c"
        then have "q \<noteq> c" using reach_self [of c] by auto
        then have "indexOf q S \<noteq> indexOf c S" using q by (simp add: indexOf_eq_iff)
        moreover have "\<not> indexOf c S < indexOf q S" using stay q by simp
        ultimately show "before S q c" using q True by (simp add: before_def)
      qed
    qed
  qed
qed


section \<open>The walk of the code\<close>

text \<open>
  \<open>indexMap ks\<close> is the index table of a list of keys: the position of each key of the list.
  \<open>hashOf\<close> is the hash of a cell whose hash can be computed, \<open>keyOf\<close> the key under which
  \<open>treeWalk\<close> files the cell, \<open>enc\<close> the array of pairs of a hash and a cell that it keeps.
\<close>

definition indexMap :: "'k list \<Rightarrow> 'k \<Rightarrow> nat option" where
  "indexMap ks = (\<lambda>k. if k \<in> set ks then Some (indexOf k ks) else None)"

lemma indexMap_empty: "indexMap [] = Map.empty"
  by (simp add: indexMap_def)

lemma indexMap_snoc: "k \<notin> set ks \<Longrightarrow> (indexMap ks)(k \<mapsto> length ks) = indexMap (ks @ [k])"
  by (rule ext) (auto simp: indexMap_def indexOf_append)

lemma indexMap_move:
  assumes "distinct ks" "kt \<in> set ks"
  shows "(\<lambda>h. case (indexMap ks h, indexMap ks kt) of
              (Some v, Some t) \<Rightarrow> Some (if v > t then v - 1 else v)
            | (x, _) \<Rightarrow> x)(kt \<mapsto> length ks - 1)
         = indexMap (remove1 kt ks @ [kt])"
proof (rule ext)
  fix h
  show "((\<lambda>h. case (indexMap ks h, indexMap ks kt) of
              (Some v, Some t) \<Rightarrow> Some (if v > t then v - 1 else v)
            | (x, _) \<Rightarrow> x)(kt \<mapsto> length ks - 1)) h
         = indexMap (remove1 kt ks @ [kt]) h"
  proof (cases "h = kt")
    case True
    have "kt \<notin> set (remove1 kt ks)" using assms by simp
    moreover have "length (remove1 kt ks) = length ks - 1" using assms(2) by (simp add: length_remove1)
    ultimately show ?thesis using True by (simp add: indexMap_def indexOf_append)
  next
    case False
    show ?thesis
    proof (cases "h \<in> set ks")
      case True
      then have "h \<in> set (remove1 kt ks)" using False by simp
      then show ?thesis
        using False True assms(2) by (simp add: indexMap_def indexOf_append indexOf_remove1)
    next
      case nin: False
      then have "h \<notin> set (remove1 kt ks)" by (meson notin_set_remove1)
      then show ?thesis using False nin assms(2) by (simp add: indexMap_def)
    qed
  qed
qed


definition hashOf :: "(u8 list \<Rightarrow> u8 list) \<Rightarrow> Cell \<Rightarrow> u8 list" where
  "hashOf sha256 c = projr (hash sha256 c)"

definition keyOf :: "(u8 list \<Rightarrow> u8 list) \<Rightarrow> (u8 list \<Rightarrow> 'k) \<Rightarrow> Cell \<Rightarrow> 'k" where
  "keyOf sha256 txt c = txt (hashOf sha256 c)"

definition enc :: "(u8 list \<Rightarrow> u8 list) \<Rightarrow> Cell list \<Rightarrow> TopologicalOrderArray" where
  "enc sha256 S = map (\<lambda>c. (hashOf sha256 c, c)) S"

lemma mapE_Inr: "mapE f xs = Inr ys \<Longrightarrow> x \<in> set xs \<Longrightarrow> \<exists>y. f x = Inr y"
proof (induction xs arbitrary: ys)
  case (Cons a xs)
  from Cons.prems(1) obtain y zs where "f a = Inr y" "mapE f xs = Inr zs"
    by (cases "f a"; cases "mapE f xs") auto
  with Cons show ?case by auto
qed simp

lemma hash_children:
  assumes "hash sha256 c = Inr h" "x \<in> children c"
  shows "\<exists>hx. hash sha256 x = Inr hx"
proof -
  let ?F = "\<lambda>cell. andThen (getRepr sha256 cell) (\<lambda>r. Inr (sha256 r))"
  from assms(1) obtain r where "getRepr sha256 c = Inr r"
    by (cases "getRepr sha256 c") (auto simp: hash_def)
  then obtain hs where "mapE ?F (cellsOf (refs c)) = Inr hs"
    by (subst (asm) getRepr.simps)
       (cases "getDataWithDescriptors c"; cases "mapE ?F (cellsOf (refs c))"; simp)
  from mapE_Inr [OF this assms(2)] show ?thesis by (simp add: hash_def)
qed

lemma hash_descendants: "hash sha256 c = Inr h \<Longrightarrow> u \<in> reach c \<Longrightarrow> \<exists>hu. hash sha256 u = Inr hu"
proof (induction c arbitrary: h rule: allCells.induct)
  case (1 c)
  from 1(3) have "u = c \<or> (\<exists>x \<in> children c. u \<in> reach x)" by (subst (asm) reach_unfold) auto
  then show ?case
  proof
    assume "u = c" with 1(2) show ?thesis by simp
  next
    assume "\<exists>x \<in> children c. u \<in> reach x"
    then obtain x where x: "x \<in> children c" "u \<in> reach x" by blast
    from hash_children [OF 1(2) x(1)] obtain hx where "hash sha256 x = Inr hx" by blast
    from 1(1) [OF x(1) this x(2)] show ?thesis .
  qed
qed

lemma hash_hashOf: "\<exists>h. hash sha256 c = Inr h \<Longrightarrow> hash sha256 c = Inr (hashOf sha256 c)"
  by (auto simp: hashOf_def)

subsection \<open>Cells with the same hash\<close>

text \<open>
  The walk knows a cell by the key of its hash, so two cells with the same hash are one cell
  to it, whatever their values (a bit string of another capacity holds the same bits).
  \<open>classOf c\<close> is what the walk can tell of \<open>c\<close>: its hash and, in their order, the classes of
  its children.  \<open>collisionFree\<close> says that the keys do not collide on the graph: two of its
  cells with the same key have the same hash, and children with, one by one, the same hashes.
  It holds when the keys of the cells of the graph are pairwise different, and it allows equal
  keys for cells of equal content.  Under it the walk of the code on the cells is the walk of
  the last section on their classes.
\<close>

function classOf :: "(u8 list \<Rightarrow> u8 list) \<Rightarrow> Cell \<Rightarrow> Cell" where
  "classOf sha256 c =
     Cell \<lparr>array = hashOf sha256 c, cursor = 0, length_bits = 0\<rparr>
       (map (\<lambda>x. RefCell (classOf sha256 x)) (cellsOf (refs c))) False"
  by pat_completeness auto
termination
  by (relation "measure (\<lambda>(s, c). size c)") (auto dest: size_subCell)

declare classOf.simps [simp del]

definition collisionFree :: "(u8 list \<Rightarrow> u8 list) \<Rightarrow> (u8 list \<Rightarrow> 'k) \<Rightarrow> Cell \<Rightarrow> bool" where
  "collisionFree sha256 uint8ArrayToText root \<longleftrightarrow>
     (\<forall>c \<in> set (allCells root). \<forall>d \<in> set (allCells root).
        keyOf sha256 uint8ArrayToText c = keyOf sha256 uint8ArrayToText d \<longrightarrow>
          hashOf sha256 c = hashOf sha256 d
          \<and> map (hashOf sha256) (cellsOf (refs c)) = map (hashOf sha256) (cellsOf (refs d)))"

lemma cellsOf_RefCell: "cellsOf (map (\<lambda>x. RefCell (f x)) xs) = map f xs"
  by (induction xs) simp_all

lemma classOf_children: "cellsOf (refs (classOf sha256 c)) = map (classOf sha256) (cellsOf (refs c))"
  by (subst classOf.simps) (simp add: cellsOf_RefCell)

lemma classOf_hash: "array (bits (classOf sha256 c)) = hashOf sha256 c"
  by (subst classOf.simps) simp

lemma allCells_classOf: "allCells (classOf sha256 c) = map (classOf sha256) (allCells c)"
proof (induction c rule: allCells.induct)
  case (1 c)
  have "concat (map allCells (map (classOf sha256) (cellsOf (refs c))))
      = concat (map (\<lambda>x. map (classOf sha256) (allCells x)) (cellsOf (refs c)))"
    using 1 by (simp add: comp_def cong: map_cong)
  also have "\<dots> = map (classOf sha256) (concat (map allCells (cellsOf (refs c))))"
    by (simp add: map_concat comp_def)
  finally have eq: "concat (map allCells (map (classOf sha256) (cellsOf (refs c))))
      = map (classOf sha256) (concat (map allCells (cellsOf (refs c))))" .
  have "allCells (classOf sha256 c)
      = classOf sha256 c # concat (map allCells (cellsOf (refs (classOf sha256 c))))"
    by (rule allCells.simps)
  also have "\<dots> = classOf sha256 c # map (classOf sha256) (concat (map allCells (cellsOf (refs c))))"
    by (simp only: classOf_children eq)
  also have "\<dots> = map (classOf sha256) (c # concat (map allCells (cellsOf (refs c))))"
    by simp
  also have "\<dots> = map (classOf sha256) (allCells c)"
    by (simp only: allCells.simps [symmetric])
  finally show ?case .
qed

lemma reach_classOf: "reach (classOf sha256 c) = classOf sha256 ` reach c"
  by (simp add: allCells_classOf)

lemma size_list_cellsOf: "size_list size (map RefCell (cellsOf rs)) \<le> size_list size rs"
  by (induction rs rule: cellsOf.induct) simp_all

lemma size_list_RefCell_mono:
  "(\<And>x. x \<in> set xs \<Longrightarrow> size (f x) \<le> size x)
     \<Longrightarrow> size_list size (map (\<lambda>x. RefCell (f x)) xs) \<le> size_list size (map RefCell xs)"
proof (induction xs)
  case (Cons a xs)
  have "size (f a) \<le> size a" using Cons.prems by simp
  moreover have "size_list size (map (\<lambda>x. RefCell (f x)) xs) \<le> size_list size (map RefCell xs)"
    using Cons by simp
  ultimately show ?case by simp
qed simp

lemma size_classOf: "size (classOf sha256 c) \<le> size c"
proof (induction c rule: allCells.induct)
  case (1 c)
  have "size_list size (map (\<lambda>x. RefCell (classOf sha256 x)) (cellsOf (refs c)))
      \<le> size_list size (map RefCell (cellsOf (refs c)))"
    using 1 by (rule size_list_RefCell_mono)
  also have "\<dots> \<le> size_list size (refs c)" by (rule size_list_cellsOf)
  finally show ?case by (subst classOf.simps) (cases c, simp)
qed

lemma class_key:
  "classOf sha256 c = classOf sha256 d \<Longrightarrow> keyOf sha256 txt c = keyOf sha256 txt d"
  using classOf_hash [of sha256 c] classOf_hash [of sha256 d] by (simp add: keyOf_def)

lemma class_hash:
  "classOf sha256 c = classOf sha256 d \<Longrightarrow> hashOf sha256 c = hashOf sha256 d"
  using classOf_hash [of sha256 c] classOf_hash [of sha256 d] by simp

lemma key_class:
  assumes cf: "collisionFree sha256 txt root"
  shows "c \<in> reach root \<Longrightarrow> d \<in> reach root \<Longrightarrow> keyOf sha256 txt c = keyOf sha256 txt d
     \<Longrightarrow> classOf sha256 c = classOf sha256 d"
proof (induction c arbitrary: d rule: allCells.induct)
  case (1 c)
  from cf 1(2,3,4) have h: "hashOf sha256 c = hashOf sha256 d"
    and hs: "map (hashOf sha256) (cellsOf (refs c)) = map (hashOf sha256) (cellsOf (refs d))"
    unfolding collisionFree_def by blast+
  have len: "length (cellsOf (refs c)) = length (cellsOf (refs d))"
    using hs by (rule map_eq_imp_length_eq)
  have "map (classOf sha256) (cellsOf (refs c)) = map (classOf sha256) (cellsOf (refs d))"
  proof (rule nth_equalityI)
    show "length (map (classOf sha256) (cellsOf (refs c))) = length (map (classOf sha256) (cellsOf (refs d)))"
      using len by simp
  next
    fix i assume "i < length (map (classOf sha256) (cellsOf (refs c)))"
    then have i: "i < length (cellsOf (refs c))" "i < length (cellsOf (refs d))" using len by simp_all
    let ?x = "cellsOf (refs c) ! i" and ?y = "cellsOf (refs d) ! i"
    have x: "?x \<in> children c" and y: "?y \<in> children d" using i by simp_all
    have "hashOf sha256 ?x = hashOf sha256 ?y"
      using hs i by (metis nth_map)
    then have "keyOf sha256 txt ?x = keyOf sha256 txt ?y" by (simp add: keyOf_def)
    moreover have "?x \<in> reach root" using 1(2) x by (rule reach_children_closed)
    moreover have "?y \<in> reach root" using 1(3) y by (rule reach_children_closed)
    ultimately have "classOf sha256 ?x = classOf sha256 ?y" using 1(1) [OF x] by blast
    then show "map (classOf sha256) (cellsOf (refs c)) ! i = map (classOf sha256) (cellsOf (refs d)) ! i"
      using i by simp
  qed
  then have "map RefCell (map (classOf sha256) (cellsOf (refs c)))
      = map RefCell (map (classOf sha256) (cellsOf (refs d)))"
    by (rule arg_cong)
  then have "map (\<lambda>x. RefCell (classOf sha256 x)) (cellsOf (refs c))
      = map (\<lambda>x. RefCell (classOf sha256 x)) (cellsOf (refs d))"
    by (simp add: comp_def)
  then show ?case
    using h classOf.simps [of sha256 c] classOf.simps [of sha256 d] by simp
qed

lemma key_class_iff:
  assumes "collisionFree sha256 txt root" "c \<in> reach root" "d \<in> reach root"
  shows "keyOf sha256 txt c = keyOf sha256 txt d \<longleftrightarrow> classOf sha256 c = classOf sha256 d"
  using key_class [OF assms] class_key by blast

lemma inj_collisionFree:
  "inj_on (keyOf sha256 txt) (set (allCells root)) \<Longrightarrow> collisionFree sha256 txt root"
  unfolding collisionFree_def by (auto dest: inj_onD)

lemma indexOf_map_eq:
  "(\<And>x. x \<in> set xs \<Longrightarrow> (f c = f x) = (g c = g x))
     \<Longrightarrow> indexOf (f c) (map f xs) = indexOf (g c) (map g xs)"
  by (induction xs) simp_all

lemma member_map_eq:
  "(\<And>x. x \<in> set xs \<Longrightarrow> (f c = f x) = (g c = g x))
     \<Longrightarrow> (f c \<in> set (map f xs)) = (g c \<in> set (map g xs))"
  by (induction xs) auto

lemma distinct_map_eq:
  "(\<And>x y. x \<in> set xs \<Longrightarrow> y \<in> set xs \<Longrightarrow> (f x = f y) = (g x = g y))
     \<Longrightarrow> distinct (map f xs) = distinct (map g xs)"
proof (induction xs)
  case (Cons a xs)
  have "(f a \<in> set (map f xs)) = (g a \<in> set (map g xs))"
    by (rule member_map_eq) (simp add: Cons.prems)
  moreover have "distinct (map f xs) = distinct (map g xs)"
    by (rule Cons.IH) (simp add: Cons.prems)
  ultimately show ?case by simp
qed simp

lemma index_class:
  assumes "collisionFree sha256 txt root" "set S \<subseteq> reach root" "c \<in> reach root"
  shows "indexOf (keyOf sha256 txt c) (map (keyOf sha256 txt) S)
           = indexOf (classOf sha256 c) (map (classOf sha256) S)"
    and "keyOf sha256 txt c \<in> set (map (keyOf sha256 txt) S)
           \<longleftrightarrow> classOf sha256 c \<in> set (map (classOf sha256) S)"
proof -
  have eq: "(keyOf sha256 txt c = keyOf sha256 txt x) = (classOf sha256 c = classOf sha256 x)"
    if "x \<in> set S" for x
    using that assms by (intro key_class_iff [where root = root]) auto
  show "indexOf (keyOf sha256 txt c) (map (keyOf sha256 txt) S)
           = indexOf (classOf sha256 c) (map (classOf sha256) S)"
    using eq by (rule indexOf_map_eq)
  show "keyOf sha256 txt c \<in> set (map (keyOf sha256 txt) S)
           \<longleftrightarrow> classOf sha256 c \<in> set (map (classOf sha256) S)"
    using eq by (rule member_map_eq)
qed

lemma distinct_class:
  assumes "collisionFree sha256 txt root" "set S \<subseteq> reach root"
  shows "distinct (map (keyOf sha256 txt) S) = distinct (map (classOf sha256) S)"
proof (rule distinct_map_eq)
  fix x y assume "x \<in> set S" "y \<in> set S"
  then show "(keyOf sha256 txt x = keyOf sha256 txt y) = (classOf sha256 x = classOf sha256 y)"
    using assms by (intro key_class_iff [where root = root]) auto
qed

lemma enc_nth: "i < length S \<Longrightarrow> enc sha256 S ! i = (hashOf sha256 (S ! i), S ! i)"
  by (simp add: enc_def)

lemma remove1_nth:
  "distinct xs \<Longrightarrow> i < length xs \<Longrightarrow> take i xs @ drop (Suc i) xs = remove1 (xs ! i) xs"
  using remove1_take_drop [of xs "xs ! i"] by (simp add: indexOf_nth)

lemma moveToTheEnd_step:
  assumes cf: "collisionFree sha256 txt root"
    and S: "set S \<subseteq> reach root" "distinct (map (classOf sha256) S)"
    and t: "t \<in> reach root" "classOf sha256 t \<in> set (map (classOf sha256) S)"
  defines "i \<equiv> indexOf (classOf sha256 t) (map (classOf sha256) S)"
  defines "S1 \<equiv> take i S @ drop (Suc i) S @ [S ! i]"
  shows "moveToTheEnd (Suc f) sha256 txt (indexMap (map (keyOf sha256 txt) S)) (enc sha256 S) (hashOf sha256 t)
    = forEachM
        (\<lambda>subCell (ih, toa).
           case hash sha256 subCell of
             Inl e \<Rightarrow> Some (Inl e)
           | Inr h \<Rightarrow> moveToTheEnd f sha256 txt ih toa h)
        (cellsOf (refs (S ! i)))
        (indexMap (map (keyOf sha256 txt) S1), enc sha256 S1)"
    and "i < length S" and "classOf sha256 (S ! i) = classOf sha256 t"
    and "map (classOf sha256) S1 = remove1 (classOf sha256 t) (map (classOf sha256) S) @ [classOf sha256 t]"
    and "set S1 = set S"
proof -
  let ?K = "keyOf sha256 txt" and ?C = "classOf sha256"
  let ?ks = "map ?K S" and ?cs = "map ?C S"
  have key: "txt (hashOf sha256 t) = ?K t" by (simp add: keyOf_def)
  have idx: "indexOf (?K t) ?ks = i" and mem: "?K t \<in> set ?ks"
    using index_class [OF cf S(1) t(1)] t(2) by (simp_all add: i_def)
  have dks: "distinct ?ks" using distinct_class [OF cf S(1)] S(2) by simp
  have ti: "indexMap ?ks (?K t) = Some i"
    using idx mem by (simp add: indexMap_def)
  have "i < length ?cs" unfolding i_def using t(2) by (simp only: indexOf_less)
  then show i: "i < length S" by simp
  have "?cs ! i = ?C t" unfolding i_def using t(2) by (rule nth_indexOf)
  then show ci: "?C (S ! i) = ?C t" using i by simp
  have "?ks ! i = ?K t" using nth_indexOf [OF mem] idx by simp
  then have ki: "?K (S ! i) = ?K t" using i by simp
  have len: "length (enc sha256 S) = length ?ks" by (simp add: enc_def)
  have "map ?K S1 = take i ?ks @ drop (Suc i) ?ks @ [?ks ! i]"
    using i by (simp add: S1_def take_map drop_map)
  also have "\<dots> = remove1 (?ks ! i) ?ks @ [?ks ! i]"
    using remove1_nth [OF dks, of i] i by simp
  finally have mk: "map ?K S1 = remove1 (?K t) ?ks @ [?K t]"
    using \<open>?ks ! i = ?K t\<close> by simp
  have "map ?C S1 = take i ?cs @ drop (Suc i) ?cs @ [?cs ! i]"
    using i by (simp add: S1_def take_map drop_map)
  also have "\<dots> = remove1 (?cs ! i) ?cs @ [?cs ! i]"
    using remove1_nth [OF S(2), of i] i by simp
  finally show "map ?C S1 = remove1 (?C t) ?cs @ [?C t]"
    using \<open>?cs ! i = ?C t\<close> by simp
  have dS: "distinct S" using S(2) by (simp add: distinct_map)
  have "take i S @ drop (Suc i) S = remove1 (S ! i) S" using dS i by (rule remove1_nth)
  then have "set S1 = set (remove1 (S ! i) S) \<union> {S ! i}"
    unfolding S1_def by (metis append_assoc set_append list.set(1) list.set(2))
  then show "set S1 = set S" using dS i by auto
  have ih: "(\<lambda>h. case (indexMap ?ks h, indexMap ?ks (?K t)) of
              (Some v, Some t) \<Rightarrow> Some (if v > t then v - 1 else v)
            | (x, _) \<Rightarrow> x)(?K t \<mapsto> length (enc sha256 S) - 1)
         = indexMap (map ?K S1)"
    unfolding len mk using indexMap_move [OF dks mem] by simp
  have data: "enc sha256 S ! i = (hashOf sha256 (S ! i), S ! i)"
    using i by (rule enc_nth)
  have toa: "take i (enc sha256 S) @ drop (Suc i) (enc sha256 S) @ [enc sha256 S ! i] = enc sha256 S1"
    unfolding data by (simp add: enc_def S1_def take_map drop_map)
  have lt: "i < length (enc sha256 S)" using i by (simp add: enc_def)
  show "moveToTheEnd (Suc f) sha256 txt (indexMap ?ks) (enc sha256 S) (hashOf sha256 t)
    = forEachM
        (\<lambda>subCell (ih, toa).
           case hash sha256 subCell of
             Inl e \<Rightarrow> Some (Inl e)
           | Inr h \<Rightarrow> moveToTheEnd f sha256 txt ih toa h)
        (cellsOf (refs (S ! i)))
        (indexMap (map ?K S1), enc sha256 S1)"
    unfolding moveToTheEnd.simps Let_def key
    unfolding ih
    unfolding ti option.case
    using lt by (simp only: if_True toa) (simp only: data snd_conv)
qed

lemma forEachM_relocate:
  assumes hashable: "\<And>c. c \<in> reach root \<Longrightarrow> \<exists>h. hash sha256 c = Inr h"
    and step: "\<And>x s. x \<in> set xs \<Longrightarrow> set s \<subseteq> reach root \<Longrightarrow> distinct (map (classOf sha256) s)
       \<Longrightarrow> reach (classOf sha256 x) \<subseteq> set (map (classOf sha256) s) \<Longrightarrow>
       \<exists>s'. moveToTheEnd f sha256 txt (indexMap (map (keyOf sha256 txt) s)) (enc sha256 s) (hashOf sha256 x)
               = Some (Inr (indexMap (map (keyOf sha256 txt) s'), enc sha256 s'))
          \<and> set s' = set s
          \<and> map (classOf sha256) s' = relocate (classOf sha256 x) (map (classOf sha256) s)"
    and s: "set s \<subseteq> reach root" "distinct (map (classOf sha256) s)" "set xs \<subseteq> reach root"
       "\<And>x. x \<in> set xs \<Longrightarrow> reach (classOf sha256 x) \<subseteq> set (map (classOf sha256) s)"
  shows "\<exists>s'. forEachM
        (\<lambda>subCell (ih, toa).
           case hash sha256 subCell of
             Inl e \<Rightarrow> Some (Inl e)
           | Inr h \<Rightarrow> moveToTheEnd f sha256 txt ih toa h)
        xs (indexMap (map (keyOf sha256 txt) s), enc sha256 s)
     = Some (Inr (indexMap (map (keyOf sha256 txt) s'), enc sha256 s'))
     \<and> set s' = set s
     \<and> map (classOf sha256) s' = fold relocate (map (classOf sha256) xs) (map (classOf sha256) s)"
  using step s
proof (induction xs arbitrary: s)
  case Nil
  show ?case by (intro exI [of _ s]) simp
next
  case (Cons x xs)
  let ?C = "classOf sha256" and ?K = "keyOf sha256 txt"
  have Dx: "reach (?C x) \<subseteq> set (map ?C s)" using Cons.prems(5) by simp
  have "x \<in> reach root" using Cons.prems(4) by simp
  then have hx: "hash sha256 x = Inr (hashOf sha256 x)" by (intro hash_hashOf hashable)
  from Cons.prems(1) [of x s] Cons.prems(2,3) Dx
  obtain s1 where mv: "moveToTheEnd f sha256 txt (indexMap (map ?K s)) (enc sha256 s) (hashOf sha256 x)
         = Some (Inr (indexMap (map ?K s1), enc sha256 s1))"
    and s1: "set s1 = set s" "map ?C s1 = relocate (?C x) (map ?C s)"
    by auto
  have R: "relocated (?C x) (map ?C s) (relocate (?C x) (map ?C s))"
    using Cons.prems(3) Dx by (rule relocate_correct)
  note R1 = relocatedD(1,2) [OF R]
  have "\<exists>s'. forEachM
        (\<lambda>subCell (ih, toa).
           case hash sha256 subCell of
             Inl e \<Rightarrow> Some (Inl e)
           | Inr h \<Rightarrow> moveToTheEnd f sha256 txt ih toa h)
        xs (indexMap (map ?K s1), enc sha256 s1)
     = Some (Inr (indexMap (map ?K s'), enc sha256 s'))
     \<and> set s' = set s1
     \<and> map ?C s' = fold relocate (map ?C xs) (map ?C s1)"
  proof (rule Cons.IH)
    show "set s1 \<subseteq> reach root" using s1(1) Cons.prems(2) by simp
    show "distinct (map ?C s1)" unfolding s1(2) by (rule R1)
    show "set xs \<subseteq> reach root" using Cons.prems(4) by simp
    show "reach (?C y) \<subseteq> set (map ?C s1)" if "y \<in> set xs" for y
      unfolding s1(2) R1(2) using that Cons.prems(5) by simp
    show "\<exists>s'. moveToTheEnd f sha256 txt (indexMap (map ?K s0)) (enc sha256 s0) (hashOf sha256 y)
               = Some (Inr (indexMap (map ?K s'), enc sha256 s'))
          \<and> set s' = set s0
          \<and> map ?C s' = relocate (?C y) (map ?C s0)"
      if "y \<in> set xs" "set s0 \<subseteq> reach root" "distinct (map ?C s0)"
        "reach (?C y) \<subseteq> set (map ?C s0)" for y s0
      using that Cons.prems(1) [of y s0] by simp
  qed
  then obtain s' where s': "forEachM
        (\<lambda>subCell (ih, toa).
           case hash sha256 subCell of
             Inl e \<Rightarrow> Some (Inl e)
           | Inr h \<Rightarrow> moveToTheEnd f sha256 txt ih toa h)
        xs (indexMap (map ?K s1), enc sha256 s1)
     = Some (Inr (indexMap (map ?K s'), enc sha256 s'))"
    "set s' = set s1" "map ?C s' = fold relocate (map ?C xs) (map ?C s1)"
    by blast
  have "forEachM
        (\<lambda>subCell (ih, toa).
           case hash sha256 subCell of
             Inl e \<Rightarrow> Some (Inl e)
           | Inr h \<Rightarrow> moveToTheEnd f sha256 txt ih toa h)
        (x # xs) (indexMap (map ?K s), enc sha256 s)
     = Some (Inr (indexMap (map ?K s'), enc sha256 s'))"
    using s'(1) by (simp add: hx mv)
  moreover have "set s' = set s" using s'(2) s1(1) by simp
  moreover have "map ?C s' = fold relocate (map ?C (x # xs)) (map ?C s)"
    using s'(3) s1(2) by simp
  ultimately show ?case by blast
qed

lemma size_Cell_pos: "0 < size (c :: Cell)"
  by (cases c) simp

lemma moveToTheEnd_refines:
  assumes hashable: "\<And>c. c \<in> reach root \<Longrightarrow> \<exists>h. hash sha256 c = Inr h"
    and cf: "collisionFree sha256 txt root"
  shows "set S \<subseteq> reach root \<Longrightarrow> distinct (map (classOf sha256) S) \<Longrightarrow> t \<in> reach root
     \<Longrightarrow> classOf sha256 t = t' \<Longrightarrow> map (classOf sha256) S = A \<Longrightarrow> reach t' \<subseteq> set A \<Longrightarrow> size t' \<le> fuel \<Longrightarrow>
     \<exists>S'. moveToTheEnd fuel sha256 txt (indexMap (map (keyOf sha256 txt) S)) (enc sha256 S) (hashOf sha256 t)
             = Some (Inr (indexMap (map (keyOf sha256 txt) S'), enc sha256 S'))
        \<and> set S' = set S
        \<and> map (classOf sha256) S' = relocate t' A"
proof (induction t' A arbitrary: fuel t S rule: relocate.induct)
  case (1 t' A)
  let ?C = "classOf sha256" and ?K = "keyOf sha256 txt"
  from 1(8) size_Cell_pos [of t'] obtain f where fuel: "fuel = Suc f" by (cases fuel) auto
  have tA: "?C t \<in> set (map ?C S)" using 1(5,6,7) reach_self [of t'] by blast
  define i where "i = indexOf (?C t) (map ?C S)"
  define S1 where "S1 = take i S @ drop (Suc i) S @ [S ! i]"
  have step: "moveToTheEnd (Suc f) sha256 txt (indexMap (map ?K S)) (enc sha256 S) (hashOf sha256 t)
    = forEachM
        (\<lambda>subCell (ih, toa).
           case hash sha256 subCell of
             Inl e \<Rightarrow> Some (Inl e)
           | Inr h \<Rightarrow> moveToTheEnd f sha256 txt ih toa h)
        (cellsOf (refs (S ! i)))
        (indexMap (map ?K S1), enc sha256 S1)"
    "i < length S" "?C (S ! i) = ?C t"
    "map ?C S1 = remove1 (?C t) (map ?C S) @ [?C t]"
    "set S1 = set S"
    unfolding i_def S1_def by (rule moveToTheEnd_step [OF cf 1(2,3,4) tA])+
  let ?e = "S ! i"
  have eG: "?e \<in> reach root" using step(2) 1(2) by (meson nth_mem subsetD)
  have ce: "?C ?e = t'" using step(3) 1(5) by simp
  have kids: "map ?C (cellsOf (refs ?e)) = cellsOf (refs t')"
    using classOf_children [of sha256 ?e] ce by simp
  have A1: "map ?C S1 = remove1 t' A @ [t']" using step(4) 1(5,6) by simp
  have t'A: "t' \<in> set A" using tA 1(5,6) by simp
  have dA: "distinct A" using 1(3,6) by simp
  have dA1: "distinct (map ?C S1)" "set (map ?C S1) = set A"
    unfolding A1 using dA t'A by auto
  have "\<exists>s'. forEachM
        (\<lambda>subCell (ih, toa).
           case hash sha256 subCell of
             Inl e \<Rightarrow> Some (Inl e)
           | Inr h \<Rightarrow> moveToTheEnd f sha256 txt ih toa h)
        (cellsOf (refs ?e)) (indexMap (map ?K S1), enc sha256 S1)
     = Some (Inr (indexMap (map ?K s'), enc sha256 s'))
     \<and> set s' = set S1
     \<and> map ?C s' = fold relocate (map ?C (cellsOf (refs ?e))) (map ?C S1)"
  proof (rule forEachM_relocate [where root = root])
    show "\<exists>h. hash sha256 c = Inr h" if "c \<in> reach root" for c using that by (rule hashable)
    show "set S1 \<subseteq> reach root" using step(5) 1(2) by simp
    show "distinct (map ?C S1)" by (rule dA1)
    show "set (cellsOf (refs ?e)) \<subseteq> reach root"
      using eG reach_children_closed by blast
    show "reach (?C x) \<subseteq> set (map ?C S1)" if "x \<in> set (cellsOf (refs ?e))" for x
    proof -
      have "?C x \<in> set (map ?C (cellsOf (refs ?e)))" using that by simp
      then have "?C x \<in> children t'" unfolding kids .
      then show ?thesis using reach_child [of "?C x" t'] 1(7) dA1(2) by blast
    qed
    show "\<exists>s'. moveToTheEnd f sha256 txt (indexMap (map ?K s)) (enc sha256 s) (hashOf sha256 x)
               = Some (Inr (indexMap (map ?K s'), enc sha256 s'))
          \<and> set s' = set s
          \<and> map ?C s' = relocate (?C x) (map ?C s)"
      if "x \<in> set (cellsOf (refs ?e))" "set s \<subseteq> reach root" "distinct (map ?C s)"
        "reach (?C x) \<subseteq> set (map ?C s)" for x s
    proof (rule 1(1) [OF _ that(2) that(3) _ refl refl that(4)])
      have "?C x \<in> set (map ?C (cellsOf (refs ?e)))" using that(1) by simp
      then show x': "?C x \<in> set (cellsOf (refs t'))" unfolding kids .
      show "x \<in> reach root" using eG that(1) by (rule reach_children_closed)
      show "size (?C x) \<le> f" using size_subCell [OF x'] 1(8) fuel by simp
    qed
  qed
  then obtain s' where s': "forEachM
        (\<lambda>subCell (ih, toa).
           case hash sha256 subCell of
             Inl e \<Rightarrow> Some (Inl e)
           | Inr h \<Rightarrow> moveToTheEnd f sha256 txt ih toa h)
        (cellsOf (refs ?e)) (indexMap (map ?K S1), enc sha256 S1)
     = Some (Inr (indexMap (map ?K s'), enc sha256 s'))"
    "set s' = set S1" "map ?C s' = fold relocate (map ?C (cellsOf (refs ?e))) (map ?C S1)"
    by blast
  have "relocate t' A = fold relocate (cellsOf (refs t')) (remove1 t' A @ [t'])"
    by (rule relocate.simps)
  then have "map ?C s' = relocate t' A" using s'(3) kids A1 by simp
  moreover have "set s' = set S" using s'(2) step(5) by simp
  moreover have "moveToTheEnd fuel sha256 txt (indexMap (map ?K S)) (enc sha256 S) (hashOf sha256 t)
             = Some (Inr (indexMap (map ?K s'), enc sha256 s'))"
    unfolding fuel step(1) using s'(1) .
  ultimately show ?case by blast
qed

lemma forEachM_walk:
  assumes step: "\<And>x s. x \<in> set xs \<Longrightarrow> set s \<subseteq> reach root \<Longrightarrow> distinct (map (classOf sha256) s)
       \<Longrightarrow> seenDone (classOf sha256 x) (map (classOf sha256) s) \<Longrightarrow>
       \<exists>s'. treeWalk fuel sha256 txt x (enc sha256 s) (indexMap (map (keyOf sha256 txt) s)) (Some (hashOf sha256 c))
              = Some (Inr (enc sha256 s', indexMap (map (keyOf sha256 txt) s')))
          \<and> set s \<subseteq> set s' \<and> set s' \<subseteq> reach root
          \<and> map (classOf sha256) s' = walk (classOf sha256 x) (Some c') (map (classOf sha256) s)"
    and K: "walking c' A (map (classOf sha256) s) G C"
    and xs: "set (map (classOf sha256) xs) \<subseteq> children c'"
    and U: "set s \<subseteq> reach root"
  shows "\<exists>s'. forEachM
        (\<lambda>subCell (toa, ih). treeWalk fuel sha256 txt subCell toa ih (Some (hashOf sha256 c)))
        xs (enc sha256 s, indexMap (map (keyOf sha256 txt) s))
     = Some (Inr (enc sha256 s', indexMap (map (keyOf sha256 txt) s')))
     \<and> set s \<subseteq> set s' \<and> set s' \<subseteq> reach root
     \<and> map (classOf sha256) s' = fold (\<lambda>x. walk x (Some c')) (map (classOf sha256) xs) (map (classOf sha256) s)"
  using step K xs U
proof (induction xs arbitrary: s G C)
  case Nil
  show ?case using Nil.prems(4) by (intro exI [of _ s]) simp
next
  case (Cons x xs)
  let ?C = "classOf sha256" and ?K = "keyOf sha256 txt"
  have x: "?C x \<in> children c'" using Cons.prems(3) by simp
  have ds: "distinct (map ?C s)" using walkingD(1) [OF Cons.prems(2)] .
  have sd: "seenDone (?C x) (map ?C s)" using Cons.prems(2) x by (rule walking_seenDone)
  from Cons.prems(1) [of x s] Cons.prems(4) ds sd
  obtain s1 where tw: "treeWalk fuel sha256 txt x (enc sha256 s) (indexMap (map ?K s)) (Some (hashOf sha256 c))
         = Some (Inr (enc sha256 s1, indexMap (map ?K s1)))"
    and s1: "set s \<subseteq> set s1" "set s1 \<subseteq> reach root"
      "map ?C s1 = walk (?C x) (Some c') (map ?C s)"
    by auto
  have W: "walked (?C x) (Some c') (map ?C s) (map ?C s1)"
    unfolding s1(3) using ds sd by (rule walk_correct)
  from walking_step [OF Cons.prems(2) W x]
  have K': "walking c' A (map ?C s1) (G \<union> reach (?C x)) (insert (?C x) C)" .
  have "\<exists>s'. forEachM
        (\<lambda>subCell (toa, ih). treeWalk fuel sha256 txt subCell toa ih (Some (hashOf sha256 c)))
        xs (enc sha256 s1, indexMap (map ?K s1))
     = Some (Inr (enc sha256 s', indexMap (map ?K s')))
     \<and> set s1 \<subseteq> set s' \<and> set s' \<subseteq> reach root
     \<and> map ?C s' = fold (\<lambda>x. walk x (Some c')) (map ?C xs) (map ?C s1)"
  proof (rule Cons.IH [OF _ K' _ s1(2)])
    show "set (map ?C xs) \<subseteq> children c'" using Cons.prems(3) by simp
    show "\<exists>s'. treeWalk fuel sha256 txt y (enc sha256 s0) (indexMap (map ?K s0)) (Some (hashOf sha256 c))
              = Some (Inr (enc sha256 s', indexMap (map ?K s')))
          \<and> set s0 \<subseteq> set s' \<and> set s' \<subseteq> reach root
          \<and> map ?C s' = walk (?C y) (Some c') (map ?C s0)"
      if "y \<in> set xs" "set s0 \<subseteq> reach root" "distinct (map ?C s0)" "seenDone (?C y) (map ?C s0)" for y s0
      using that Cons.prems(1) [of y s0] by simp
  qed
  then obtain s' where s': "forEachM
        (\<lambda>subCell (toa, ih). treeWalk fuel sha256 txt subCell toa ih (Some (hashOf sha256 c)))
        xs (enc sha256 s1, indexMap (map ?K s1))
     = Some (Inr (enc sha256 s', indexMap (map ?K s')))"
    "set s1 \<subseteq> set s'" "set s' \<subseteq> reach root"
    "map ?C s' = fold (\<lambda>x. walk x (Some c')) (map ?C xs) (map ?C s1)"
    by blast
  have "forEachM
        (\<lambda>subCell (toa, ih). treeWalk fuel sha256 txt subCell toa ih (Some (hashOf sha256 c)))
        (x # xs) (enc sha256 s, indexMap (map ?K s))
     = Some (Inr (enc sha256 s', indexMap (map ?K s')))"
    using s'(1) by (simp add: tw)
  moreover have "set s \<subseteq> set s'" using s1(1) s'(2) by simp
  moreover have "map ?C s' = fold (\<lambda>x. walk x (Some c')) (map ?C (x # xs)) (map ?C s)"
    using s'(4) s1(3) by simp
  ultimately show ?case using s'(3) by blast
qed

lemma treeWalk_refines:
  assumes hashable: "\<And>c. c \<in> reach root \<Longrightarrow> \<exists>h. hash sha256 c = Inr h"
    and cf: "collisionFree sha256 txt root"
  shows "set S \<subseteq> reach root \<Longrightarrow> distinct (map (classOf sha256) S) \<Longrightarrow> c \<in> reach root
     \<Longrightarrow> classOf sha256 c = c' \<Longrightarrow> map (classOf sha256) S = A \<Longrightarrow> map_option (classOf sha256) p = p'
     \<Longrightarrow> seenDone c' A \<Longrightarrow> size c' \<le> fuel \<Longrightarrow> (\<And>q. p = Some q \<Longrightarrow> q \<in> reach root) \<Longrightarrow>
     \<exists>S'. treeWalk fuel sha256 txt c (enc sha256 S) (indexMap (map (keyOf sha256 txt) S))
             (map_option (hashOf sha256) p)
           = Some (Inr (enc sha256 S', indexMap (map (keyOf sha256 txt) S')))
        \<and> set S \<subseteq> set S' \<and> set S' \<subseteq> reach root
        \<and> (c' \<notin> set A \<longrightarrow> c \<in> set S')
        \<and> map (classOf sha256) S' = walk c' p' A"
proof (induction c' p' A arbitrary: c p S rule: walk.induct)
  case (1 c' p' A)
  let ?K = "keyOf sha256 txt" and ?C = "classOf sha256"
  let ?ks = "map ?K S"
  note cG = 1(4)
  have hc: "hash sha256 c = Inr (hashOf sha256 c)" using cG by (intro hash_hashOf hashable)
  have key: "txt (hashOf sha256 c) = ?K c" by (simp add: keyOf_def)
  have dA: "distinct A" using 1(3,6) by simp
  have seen: "indexMap ?ks (?K c) \<noteq> None \<longleftrightarrow> c' \<in> set A"
    using index_class(2) [OF cf 1(2) cG] 1(5,6) by (simp add: indexMap_def)
  show ?case
  proof (cases "c' \<in> set A")
    case False
    have new: "enc sha256 S @ [(hashOf sha256 c, c)] = enc sha256 (S @ [c])"
      by (simp add: enc_def)
    have "?K c \<notin> set ?ks" using index_class(2) [OF cf 1(2) cG] 1(5,6) False by simp
    from indexMap_snoc [OF this]
    have idx: "(indexMap ?ks)(?K c \<mapsto> length (enc sha256 S)) = indexMap (map ?K (S @ [c]))"
      by (simp add: enc_def)
    have base: "walking c' A (map ?C (S @ [c])) {} {}"
      using walking_base [OF dA False 1(8)] 1(5,6) by simp
    have kids: "map ?C (cellsOf (refs c)) = cellsOf (refs c')"
      using classOf_children [of sha256 c] 1(5) by simp
    have "\<exists>s'. forEachM
        (\<lambda>subCell (toa, ih). treeWalk fuel sha256 txt subCell toa ih (Some (hashOf sha256 c)))
        (cellsOf (refs c)) (enc sha256 (S @ [c]), indexMap (map ?K (S @ [c])))
     = Some (Inr (enc sha256 s', indexMap (map ?K s')))
     \<and> set (S @ [c]) \<subseteq> set s' \<and> set s' \<subseteq> reach root
     \<and> map ?C s' = fold (\<lambda>x. walk x (Some c')) (map ?C (cellsOf (refs c))) (map ?C (S @ [c]))"
    proof (rule forEachM_walk [OF _ base])
      show "set (map ?C (cellsOf (refs c))) \<subseteq> children c'" unfolding kids by simp
      show "set (S @ [c]) \<subseteq> reach root" using 1(2) cG by simp
      show "\<exists>s'. treeWalk fuel sha256 txt x (enc sha256 s) (indexMap (map ?K s)) (Some (hashOf sha256 c))
              = Some (Inr (enc sha256 s', indexMap (map ?K s')))
          \<and> set s \<subseteq> set s' \<and> set s' \<subseteq> reach root
          \<and> map ?C s' = walk (?C x) (Some c') (map ?C s)"
        if "x \<in> set (cellsOf (refs c))" "set s \<subseteq> reach root" "distinct (map ?C s)"
          "seenDone (?C x) (map ?C s)" for x s
      proof -
        have "?C x \<in> set (map ?C (cellsOf (refs c)))" using that(1) by simp
        then have x': "?C x \<in> set (cellsOf (refs c'))" unfolding kids .
        have "\<exists>S'. treeWalk fuel sha256 txt x (enc sha256 s) (indexMap (map ?K s))
                (map_option (hashOf sha256) (Some c))
              = Some (Inr (enc sha256 S', indexMap (map ?K S')))
          \<and> set s \<subseteq> set S' \<and> set S' \<subseteq> reach root
          \<and> (?C x \<notin> set (map ?C s) \<longrightarrow> x \<in> set S')
          \<and> map ?C S' = walk (?C x) (Some c') (map ?C s)"
        proof (rule 1(1) [OF False x' that(2) that(3) _ refl refl _ that(4)])
          show "x \<in> reach root" using cG that(1) by (rule reach_children_closed)
          show "map_option ?C (Some c) = Some c'" using 1(5) by simp
          show "size (?C x) \<le> fuel" using size_subCell [OF x'] 1(9) by simp
          show "q \<in> reach root" if "Some c = Some q" for q using that cG by simp
        qed
        then show ?thesis by auto
      qed
    qed
    then obtain s' where s': "forEachM
        (\<lambda>subCell (toa, ih). treeWalk fuel sha256 txt subCell toa ih (Some (hashOf sha256 c)))
        (cellsOf (refs c)) (enc sha256 (S @ [c]), indexMap (map ?K (S @ [c])))
     = Some (Inr (enc sha256 s', indexMap (map ?K s')))"
     "set (S @ [c]) \<subseteq> set s'" "set s' \<subseteq> reach root"
     "map ?C s' = fold (\<lambda>x. walk x (Some c')) (map ?C (cellsOf (refs c))) (map ?C (S @ [c]))"
      by blast
    have "walk c' p' A = fold (\<lambda>x. walk x (Some c')) (cellsOf (refs c')) (A @ [c'])"
      using False by (subst walk.simps) simp
    then have "map ?C s' = walk c' p' A" using s'(4) kids 1(5,6) by simp
    moreover have "treeWalk fuel sha256 txt c (enc sha256 S) (indexMap ?ks) (map_option (hashOf sha256) p)
           = Some (Inr (enc sha256 s', indexMap (map ?K s')))"
      using False seen s'(1)
      by (subst treeWalk.simps) (simp add: hc key new idx Let_def)
    moreover have "set S \<subseteq> set s'" "c \<in> set s'" using s'(2) by simp_all
    ultimately show ?thesis using s'(3) by blast
  next
    case True
    have closed: "reach c' \<subseteq> set A" using 1(8) True by (rule seenDone_closed)
    have same: "\<exists>S'. treeWalk fuel sha256 txt c (enc sha256 S) (indexMap ?ks) (map_option (hashOf sha256) p)
           = Some (Inr (enc sha256 S', indexMap (map ?K S')))
        \<and> set S \<subseteq> set S' \<and> set S' \<subseteq> reach root
        \<and> (c' \<notin> set A \<longrightarrow> c \<in> set S')
        \<and> map ?C S' = walk c' p' A"
      if "treeWalk fuel sha256 txt c (enc sha256 S) (indexMap ?ks) (map_option (hashOf sha256) p)
           = Some (Inr (enc sha256 S, indexMap ?ks))" "walk c' p' A = A"
      using that True 1(2,6) by (intro exI [of _ S]) simp
    show ?thesis
    proof (cases p)
      case None
      then have "p' = None" using 1(7) by simp
      then have "walk c' p' A = A" using True by (subst walk.simps) simp
      moreover have "treeWalk fuel sha256 txt c (enc sha256 S) (indexMap ?ks) (map_option (hashOf sha256) p)
           = Some (Inr (enc sha256 S, indexMap ?ks))"
        using True seen None by (subst treeWalk.simps) (simp add: hc key Let_def)
      ultimately show ?thesis by (intro same)
    next
      case (Some q)
      have qG: "q \<in> reach root" using 1(10) Some by simp
      have p': "p' = Some (?C q)" using 1(7) Some by auto
      have gt: "greaterThan_js (indexMap ?ks (txt (hashOf sha256 q))) (indexMap ?ks (?K c))
          \<longleftrightarrow> ?C q \<in> set A \<and> indexOf c' A < indexOf (?C q) A"
        using index_class [OF cf 1(2) cG] index_class [OF cf 1(2) qG] True 1(5,6)
        by (simp add: greaterThan_js_def indexMap_def keyOf_def [symmetric])
      show ?thesis
      proof (cases "?C q \<in> set A \<and> indexOf c' A < indexOf (?C q) A")
        case moved: True
        then have w: "walk c' p' A = relocate c' A" using True p' by (subst walk.simps) simp
        from moveToTheEnd_refines [OF hashable cf 1(2,3) cG 1(5,6) closed 1(9)]
        obtain S' where S': "moveToTheEnd fuel sha256 txt (indexMap ?ks) (enc sha256 S) (hashOf sha256 c)
          = Some (Inr (indexMap (map ?K S'), enc sha256 S'))"
          "set S' = set S" "map ?C S' = relocate c' A"
          by blast
        have "treeWalk fuel sha256 txt c (enc sha256 S) (indexMap ?ks) (map_option (hashOf sha256) p)
           = Some (Inr (enc sha256 S', indexMap (map ?K S')))"
          using True seen Some gt moved S'(1)
          by (subst treeWalk.simps) (simp add: hc key Let_def)
        then show ?thesis using S'(2,3) w True 1(2) by (intro exI [of _ S']) simp
      next
        case stay: False
        then have "walk c' p' A = A" using True p' by (subst walk.simps) auto
        moreover have "treeWalk fuel sha256 txt c (enc sha256 S) (indexMap ?ks) (map_option (hashOf sha256) p)
           = Some (Inr (enc sha256 S, indexMap ?ks))"
          using True seen Some gt stay
          by (subst treeWalk.simps) (simp add: hc key Let_def)
        ultimately show ?thesis by (intro same)
      qed
    qed
  qed
qed

lemma reach_parent: "x \<in> reach c \<Longrightarrow> x \<noteq> c \<Longrightarrow> \<exists>u \<in> reach c. x \<in> children u"
proof (induction c rule: allCells.induct)
  case (1 c)
  from 1(2,3) obtain y where y: "y \<in> children c" "x \<in> reach y"
    by (subst (asm) reach_unfold) auto
  show ?case
  proof (cases "x = y")
    case True
    then show ?thesis using y(1) reach_self [of c] by blast
  next
    case False
    from 1(1) [OF y(1) y(2) False] obtain u where "u \<in> reach y" "x \<in> children u" by blast
    then show ?thesis using reach_child [OF y(1)] by blast
  qed
qed

lemma treeWalk_result:
  assumes h0: "hash sha256 root = Inr h0"
    and cf: "collisionFree sha256 txt root"
    and fuel: "size root \<le> fuel"
  shows "\<exists>S. treeWalk fuel sha256 txt root [] Map.empty None
           = Some (Inr (enc sha256 S, indexMap (map (keyOf sha256 txt) S)))
     \<and> set S \<subseteq> reach root \<and> distinct (map (keyOf sha256 txt) S)
     \<and> S \<noteq> [] \<and> S ! 0 = root
     \<and> (\<forall>c \<in> reach root. keyOf sha256 txt c \<in> set (map (keyOf sha256 txt) S))
     \<and> (\<forall>u \<in> set S. \<forall>v \<in> children u.
           indexOf (keyOf sha256 txt u) (map (keyOf sha256 txt) S)
             < indexOf (keyOf sha256 txt v) (map (keyOf sha256 txt) S))"
proof -
  let ?C = "classOf sha256" and ?K = "keyOf sha256 txt"
  have hashable: "\<exists>h. hash sha256 c = Inr h" if "c \<in> reach root" for c
    using h0 that by (rule hash_descendants)
  have sd: "seenDone (?C root) []" by (simp add: seenDone_def)
  have "\<exists>S'. treeWalk fuel sha256 txt root (enc sha256 []) (indexMap (map ?K []))
             (map_option (hashOf sha256) None)
           = Some (Inr (enc sha256 S', indexMap (map ?K S')))
        \<and> set [] \<subseteq> set S' \<and> set S' \<subseteq> reach root
        \<and> (?C root \<notin> set [] \<longrightarrow> root \<in> set S')
        \<and> map ?C S' = walk (?C root) None []"
  proof (rule treeWalk_refines [OF hashable cf _ _ _ refl _ _ sd])
    show "size (?C root) \<le> fuel" using size_classOf [of sha256 root] fuel by simp
  qed (simp_all add: reach_self)
  then obtain S where tw: "treeWalk fuel sha256 txt root [] Map.empty None
       = Some (Inr (enc sha256 S, indexMap (map ?K S)))"
    and S: "set S \<subseteq> reach root" "root \<in> set S" "map ?C S = walk (?C root) None []"
    by (auto simp: enc_def indexMap_empty)
  let ?A = "map ?C S"
  have W: "walked (?C root) None [] ?A" unfolding S(3) using _ sd by (rule walk_correct) simp
  have dA: "distinct ?A" and sA: "set ?A = ?C ` reach root"
    using walkedD(1,2) [OF W] by (simp_all add: reach_classOf)
  have ord: "before ?A (?C u) (?C v)" if "u \<in> reach root" "v \<in> children u" for u v
  proof (rule walkedD(4) [OF W])
    show "?C u \<in> reach (?C root)" using that(1) by (simp add: reach_classOf)
    show "?C v \<in> children (?C u)" using that(2) by (simp add: classOf_children)
  qed
  have dK: "distinct (map ?K S)" using distinct_class [OF cf S(1)] dA by simp
  have all: "?K c \<in> set (map ?K S)" if "c \<in> reach root" for c
    using index_class(2) [OF cf S(1) that] sA that by blast
  have fwd: "indexOf (?K u) (map ?K S) < indexOf (?K v) (map ?K S)"
    if "u \<in> set S" "v \<in> children u" for u v
  proof -
    have u: "u \<in> reach root" using that(1) S(1) by blast
    then have v: "v \<in> reach root" using that(2) by (rule reach_children_closed)
    have "indexOf (?C u) ?A < indexOf (?C v) ?A" using ord [OF u that(2)] by (simp add: before_def)
    then show ?thesis using index_class(1) [OF cf S(1) u] index_class(1) [OF cf S(1) v] by simp
  qed
  have ne: "S \<noteq> []" using S(2) by auto
  have first: "?A ! 0 = ?C root"
  proof (rule ccontr)
    assume neq: "?A ! 0 \<noteq> ?C root"
    have "?A ! 0 \<in> set ?A" using ne by (intro nth_mem) simp
    then obtain x where x: "x \<in> reach root" "?A ! 0 = ?C x" using sA by auto
    then have "x \<noteq> root" using neq by auto
    from reach_parent [OF x(1) this] obtain u where u: "u \<in> reach root" "x \<in> children u" by blast
    have "indexOf (?C u) ?A < indexOf (?C x) ?A" using ord [OF u] by (simp add: before_def)
    moreover have "indexOf (?A ! 0) ?A = 0" using dA ne by (intro indexOf_nth) simp_all
    ultimately show False using x(2) by simp
  qed
  have "S ! 0 = root"
  proof -
    obtain j where j: "j < length S" "S ! j = root" using S(2) by (auto simp: in_set_conv_nth)
    then have "?A ! j = ?A ! 0" using first by simp
    moreover have "j < length ?A" "0 < length ?A" using j(1) ne by simp_all
    ultimately have "j = 0" using dA by (simp only: nth_eq_iff_index_eq)
    then show ?thesis using j(2) by simp
  qed
  then show ?thesis using tw S(1) dK ne all fwd by blast
qed

subsection \<open>The bytes of a reference\<close>

text \<open>
  \<open>refIndexBytes\<close> is what \<^verbatim>\<open>serializeForBoc\<close> writes for a reference index: the bytes of its
  hex form, a \<^verbatim>\<open>"0"\<close> put in front of an odd number of digits.  They are never empty, and read
  as a big-endian number (\<open>bigEndian\<close>) they are the index.
\<close>

definition refIndexBytes :: "nat \<Rightarrow> error + u8 list" where
  "refIndexBytes refIndexInt =
     (let refIndexHex = Number_toString16 refIndexInt;
          refIndexHex = (if length refIndexHex mod 2 \<noteq> 0 then CHR ''0'' # refIndexHex else refIndexHex)
      in hexToBytes refIndexHex)"


definition bigEndian :: "u8 list \<Rightarrow> nat" where
  "bigEndian bs = foldl (\<lambda>a b. 256 * a + unat b) 0 bs"


definition digitVal :: "char \<Rightarrow> nat" where
  "digitVal c = indexOf c ''0123456789abcdef''"


definition hexString :: "string \<Rightarrow> bool" where
  "hexString s = (set s \<subseteq> set ''0123456789abcdef'')"

lemma hexDigit_val: "d < 16 \<Longrightarrow> digitVal (hexDigit d) = d"
  unfolding digitVal_def hexDigit_def by (rule indexOf_nth) simp_all

lemma hexDigit_hex: "d < 16 \<Longrightarrow> hexDigit d \<in> set ''0123456789abcdef''"
  unfolding hexDigit_def by (rule nth_mem) simp

lemma digitVal_less: "c \<in> set ''0123456789abcdef'' \<Longrightarrow> digitVal c < 16"
  using indexOf_less [of c "''0123456789abcdef''"] by (simp add: digitVal_def)

lemma hexDigit_digitVal: "c \<in> set ''0123456789abcdef'' \<Longrightarrow> hexDigit (digitVal c) = c"
  unfolding digitVal_def hexDigit_def by (rule nth_indexOf)

lemma hexDigits_hex: "hexString (hexDigits n)"
proof (induction n rule: hexDigits.induct)
  case (1 n)
  show ?case
  proof (cases "n = 0")
    case True
    then show ?thesis by (subst hexDigits.simps) (simp add: hexString_def)
  next
    case False
    have "hexDigit (n mod 16) \<in> set ''0123456789abcdef''" by (rule hexDigit_hex) simp
    then show ?thesis
      using False 1 [OF False] unfolding hexString_def by (subst hexDigits.simps) simp
  qed
qed

lemma hexDigits_nonempty: "n \<noteq> 0 \<Longrightarrow> hexDigits n \<noteq> []"
  by (subst hexDigits.simps) simp

lemma hexDigits_val: "foldl (\<lambda>a c. 16 * a + digitVal c) 0 (hexDigits n) = n"
proof (induction n rule: hexDigits.induct)
  case (1 n)
  show ?case
  proof (cases "n = 0")
    case True
    then show ?thesis by (subst hexDigits.simps) simp
  next
    case False
    have "digitVal (hexDigit (n mod 16)) = n mod 16" by (rule hexDigit_val) simp
    then show ?thesis using False 1 [OF False] by (subst hexDigits.simps) simp
  qed
qed

lemma toLowerCase_hex: "hexString s \<Longrightarrow> toLowerCase s = s"
proof -
  have "\<forall>c \<in> set ''0123456789abcdef''.
      (let n = (of_char c :: nat) in if 65 \<le> n \<and> n \<le> 90 then char_of (n + 32) else c) = c"
    by simp
  then show "hexString s \<Longrightarrow> toLowerCase s = s"
    unfolding toLowerCase_def hexString_def by (intro map_idI) blast
qed

lemma to_hex_array_nth:
  "k < 256 \<Longrightarrow> to_hex_array ! k = [hexDigit (k div 16), hexDigit (k mod 16)]"
  by (simp add: to_hex_array_def)

lemma div_mod_16_eq: "x div 16 = y div 16 \<Longrightarrow> x mod 16 = y mod 16 \<Longrightarrow> x = (y::nat)"
  by (metis div_mult_mod_eq)

lemma to_hex_array_distinct: "distinct to_hex_array"
proof -
  have "inj_on (\<lambda>ord. [hexDigit (ord div 16), hexDigit (ord mod 16)]) {0..<256}"
  proof (rule inj_onI)
    fix x y :: nat
    assume x: "x \<in> {0..<256}" and y: "y \<in> {0..<256}"
      and eq: "[hexDigit (x div 16), hexDigit (x mod 16)] = [hexDigit (y div 16), hexDigit (y mod 16)]"
    have "x < 16 * 16" "y < 16 * 16" using x y by simp_all
    then have d: "x div 16 < 16" "y div 16 < 16" by (simp_all only: div_less_iff_less_mult zero_less_numeral)
    have m: "x mod 16 < 16" "y mod 16 < 16" by simp_all
    have e1: "hexDigit (x div 16) = hexDigit (y div 16)" and e2: "hexDigit (x mod 16) = hexDigit (y mod 16)"
      using eq by simp_all
    have "x div 16 = digitVal (hexDigit (x div 16))" using d(1) by (simp only: hexDigit_val)
    also have "\<dots> = digitVal (hexDigit (y div 16))" by (simp only: e1)
    also have "\<dots> = y div 16" using d(2) by (simp only: hexDigit_val)
    finally have dd: "x div 16 = y div 16" .
    have "x mod 16 = digitVal (hexDigit (x mod 16))" using m(1) by (simp only: hexDigit_val)
    also have "\<dots> = digitVal (hexDigit (y mod 16))" by (simp only: e2)
    also have "\<dots> = y mod 16" using m(2) by (simp only: hexDigit_val)
    finally have mm: "x mod 16 = y mod 16" .
    from dd mm show "x = y" by (rule div_mod_16_eq)
  qed
  moreover have "distinct [0..<256]" by (rule distinct_upt)
  moreover have "set [0..<256] = {0..<256}" by (rule set_upt)
  ultimately have "distinct (map (\<lambda>ord. [hexDigit (ord div 16), hexDigit (ord mod 16)]) [0..<256])"
    by (simp only: distinct_map simp_thms)
  then show ?thesis by (simp only: to_hex_array_def)
qed
lemma to_byte_map_pair:
  assumes "a < 16" "b < 16"
  shows "to_byte_map [hexDigit a, hexDigit b] = Some (16 * a + b)"
proof -
  let ?k = "16 * a + b"
  have k: "?k < 256" using assms by simp
  have len: "length to_hex_array = length [0..<256]" by (simp add: to_hex_array_def)
  have "map_of (zip to_hex_array [0..<256]) (to_hex_array ! ?k) = Some ([0..<256] ! ?k)"
    using len to_hex_array_distinct by (rule map_of_zip_nth) (use k in simp)
  moreover have "to_hex_array ! ?k = [hexDigit a, hexDigit b]"
    using assms by (simp add: to_hex_array_nth [OF k])
  moreover have "[0..<256] ! ?k = ?k" using k by simp
  ultimately show ?thesis by (simp add: to_byte_map_def)
qed

lemma hexPairs_val:
  "hexString s \<Longrightarrow> even (length s) \<Longrightarrow>
     \<exists>bs. hexPairs s = Inr bs \<and> length bs = length s div 2
        \<and> (\<forall>acc. foldl (\<lambda>a b. 256 * a + unat b) acc bs = foldl (\<lambda>a c. 16 * a + digitVal c) acc s)"
proof (induction s rule: hexPairs.induct)
  case (1 a b rest)
  have ab: "a \<in> set ''0123456789abcdef''" "b \<in> set ''0123456789abcdef''"
    and rest: "hexString rest" "even (length rest)"
    using 1(2,3) by (simp_all add: hexString_def)
  let ?v = "16 * digitVal a + digitVal b"
  have da: "digitVal a < 16" and db: "digitVal b < 16" using ab by (simp_all only: digitVal_less)
  have "to_byte_map [hexDigit (digitVal a), hexDigit (digitVal b)] = Some ?v"
    using da db by (rule to_byte_map_pair)
  then have look: "to_byte_map [a, b] = Some ?v" using ab by (simp only: hexDigit_digitVal)
  from 1(1) [OF look rest] obtain bs where bs: "hexPairs rest = Inr bs" "length bs = length rest div 2"
    "\<forall>acc. foldl (\<lambda>a b. 256 * a + unat b) acc bs = foldl (\<lambda>a c. 16 * a + digitVal c) acc rest"
    by blast
  have "?v < 2 ^ LENGTH(8)" using da db by simp
  then have un: "unat (of_nat ?v :: u8) = ?v" by (simp only: unat_of_nat mod_less)
  have "hexPairs (a # b # rest) = Inr (of_nat ?v # bs)" using look bs(1) by simp
  moreover have "length (of_nat ?v # bs) = length (a # b # rest) div 2" using bs(2) by simp
  moreover have "foldl (\<lambda>a b. 256 * a + unat b) acc (of_nat ?v # bs)
      = foldl (\<lambda>a c. 16 * a + digitVal c) acc (a # b # rest)" for acc
    using bs(3) un by (simp add: add.assoc)
  ultimately show ?case by blast
qed simp_all

lemma refIndexBytes_value:
  "\<exists>bs. refIndexBytes j = Inr bs \<and> bs \<noteq> [] \<and> bigEndian bs = j"
proof -
  define s where "s = Number_toString16 j"
  define s' where "s' = (if length s mod 2 \<noteq> 0 then CHR ''0'' # s else s)"
  have hs: "hexString s" "s \<noteq> []" and vs: "foldl (\<lambda>a c. 16 * a + digitVal c) 0 s = j"
    using hexDigits_hex [of j] hexDigits_nonempty [of j] hexDigits_val [of j]
    by (auto simp: s_def Number_toString16_def hexString_def digitVal_def)
  have z: "digitVal CHR ''0'' = 0" by (simp add: digitVal_def)
  have hs': "hexString s'" "even (length s')" "s' \<noteq> []"
    and vs': "foldl (\<lambda>a c. 16 * a + digitVal c) 0 s' = j"
    using hs vs z by (auto simp: s'_def hexString_def)
  from hexPairs_val [OF hs'(1,2)] obtain bs where bs: "hexPairs s' = Inr bs" "length bs = length s' div 2"
    "\<forall>acc. foldl (\<lambda>a b. 256 * a + unat b) acc bs = foldl (\<lambda>a c. 16 * a + digitVal c) acc s'"
    by blast
  have "2 \<le> length s'" using hs'(2,3) by (cases s'; cases "tl s'") auto
  then have "bs \<noteq> []" using bs(2) by auto
  moreover have "bigEndian bs = j" using bs(3) vs' by (simp add: bigEndian_def)
  moreover have "refIndexBytes j = Inr bs"
  proof -
    have "refIndexBytes j = hexToBytes s'"
      by (simp add: refIndexBytes_def Let_def s'_def s_def)
    also have "\<dots> = hexPairs s'"
      using hs'(2) toLowerCase_hex [OF hs'(1)] by (simp add: hexToBytes_def Let_def)
    finally show ?thesis using bs(1) by simp
  qed
  ultimately show ?thesis by blast
qed

subsection \<open>The references that \<^verbatim>\<open>serializeForBoc\<close> writes\<close>

lemma mapE_nth:
  "mapE f xs = Inr ys \<Longrightarrow> length ys = length xs \<and> (\<forall>k < length xs. f (xs ! k) = Inr (ys ! k))"
proof (induction xs arbitrary: ys)
  case (Cons a xs)
  from Cons.prems obtain y zs where y: "f a = Inr y" "mapE f xs = Inr zs" "ys = y # zs"
    by (cases "f a"; cases "mapE f xs") auto
  from Cons.IH [OF y(2)] have "length zs = length xs" "\<forall>k < length xs. f (xs ! k) = Inr (zs ! k)"
    by simp_all
  then show ?case using y(1,3) by (auto simp: nth_Cons')
qed simp

lemma mapE_total: "(\<And>x. x \<in> set xs \<Longrightarrow> \<exists>y. f x = Inr y) \<Longrightarrow> \<exists>ys. mapE f xs = Inr ys"
proof (induction xs)
  case (Cons a xs)
  obtain y where "f a = Inr y" using Cons.prems [of a] by auto
  moreover obtain ys where "mapE f xs = Inr ys" using Cons by auto
  ultimately show ?case by simp
qed simp

lemma foldl_concatBytes: "foldl concatBytes acc rs = acc @ concat rs"
  by (induction rs arbitrary: acc) (simp_all add: concatBytes_def)

lemma hash_data: "hash sha256 c = Inr h \<Longrightarrow> \<exists>d. getDataWithDescriptors c = Inr d"
proof -
  assume "hash sha256 c = Inr h"
  then obtain r where "getRepr sha256 c = Inr r"
    by (cases "getRepr sha256 c") (auto simp: hash_def)
  then show ?thesis
    by (subst (asm) getRepr.simps) (cases "getDataWithDescriptors c"; simp)
qed

lemma serializeForBoc_refs:
  assumes d: "getDataWithDescriptors c = Inr d"
    and kids: "\<And>x. x \<in> children c \<Longrightarrow> \<exists>h j. hash sha256 x = Inr h \<and> cellsIndex (txt h) = Some j"
  shows "\<exists>rs. serializeForBoc sha256 txt c cellsIndex = Inr (d @ concat rs)
     \<and> length rs = length (cellsOf (refs c))
     \<and> (\<forall>k < length rs. rs ! k \<noteq> []
           \<and> (\<exists>h. hash sha256 (cellsOf (refs c) ! k) = Inr h
                  \<and> cellsIndex (txt h) = Some (bigEndian (rs ! k))))"
proof -
  let ?F = "\<lambda>cell. andThen (hash sha256 cell) (\<lambda>h.
              case cellsIndex (txt h) of
                None \<Rightarrow> Inl TypeError
              | Some refIndexInt \<Rightarrow> refIndexBytes refIndexInt)"
  have F: "\<exists>h j. hash sha256 x = Inr h \<and> cellsIndex (txt h) = Some j \<and> ?F x = refIndexBytes j"
    if "x \<in> children c" for x
    using kids [OF that] by auto
  have "\<exists>y. ?F x = Inr y" if "x \<in> children c" for x
    using F [OF that] refIndexBytes_value by metis
  from mapE_total [of "cellsOf (refs c)" ?F, OF this]
  obtain rs where rs: "mapE ?F (cellsOf (refs c)) = Inr rs" by blast
  note nth = mapE_nth [OF rs]
  have "rs ! k \<noteq> [] \<and> (\<exists>h. hash sha256 (cellsOf (refs c) ! k) = Inr h
                  \<and> cellsIndex (txt h) = Some (bigEndian (rs ! k)))"
    if "k < length rs" for k
  proof -
    let ?x = "cellsOf (refs c) ! k"
    have k: "k < length (cellsOf (refs c))" using that nth by simp
    then have "?x \<in> children c" by simp
    from F [OF this] obtain h j where h: "hash sha256 ?x = Inr h" "cellsIndex (txt h) = Some j"
      "?F ?x = refIndexBytes j" by blast
    obtain bs where bs: "refIndexBytes j = Inr bs" "bs \<noteq> []" "bigEndian bs = j"
      using refIndexBytes_value [of j] by blast
    have "?F ?x = Inr (rs ! k)" using nth k by blast
    then have "rs ! k = bs" using h(3) bs(1) by simp
    then show ?thesis using h bs by auto
  qed
  moreover have "serializeForBoc sha256 txt c cellsIndex = Inr (d @ concat rs)"
    using d rs [unfolded refIndexBytes_def]
    by (simp add: serializeForBoc_def isExplicitlyStoredHashes_def foldl_concatBytes concatBytes_def)
  ultimately show ?thesis using nth by blast
qed

subsection \<open>Evaluation on cells\<close>

text \<open>
  The recursive functions on cells are evaluated by equations on the constructor.
\<close>

declare getMaxLevel.simps [code del]
declare getMaxDepth.simps [code del]
declare getRepr.simps [code del]
declare treeWalk.simps [code del]
declare allCells.simps [code del]

lemma getMaxLevel_Cell [code]:
  "getMaxLevel (Cell b rs e) =
     foldl (\<lambda>maxLevel cell. if getMaxLevel cell > maxLevel then getMaxLevel cell else maxLevel)
       0 (cellsOf rs)"
  by (subst getMaxLevel.simps) simp

lemma getMaxDepth_Cell [code]:
  "getMaxDepth (Cell b rs e) =
     (if length rs > 0 then
        foldl (\<lambda>maxDepth child. if getMaxDepth child > maxDepth then getMaxDepth child else maxDepth)
          0 (cellsOf rs) + 1
      else 0)"
  by (subst getMaxDepth.simps) simp

lemma getRepr_Cell [code]:
  "getRepr sha256 (Cell b rs e) =
     andThen (getDataWithDescriptors (Cell b rs e)) (\<lambda>d.
     andThen (mapE (\<lambda>cell. andThen (getRepr sha256 cell) (\<lambda>r. Inr (sha256 r))) (cellsOf rs))
       (\<lambda>hashes. Inr (d @ concat (map getMaxDepthAsArray (cellsOf rs)) @ concat hashes)))"
  by (subst getRepr.simps) simp

lemma allCells_Cell [code]:
  "allCells (Cell b rs e) = Cell b rs e # concat (map allCells (cellsOf rs))"
  by (subst allCells.simps) simp

lemma treeWalk_Cell [code]:
  "treeWalk fuel sha256 uint8ArrayToText (Cell b rs e) topologicalOrderArray indexHashmap parentHash =
     (case hash sha256 (Cell b rs e) of
        Inl e \<Rightarrow> Some (Inl e)
      | Inr cellHash \<Rightarrow>
          (let cellHashString = uint8ArrayToText cellHash in
           if indexHashmap cellHashString \<noteq> None then
             (case parentHash of
                None \<Rightarrow> Some (Inr (topologicalOrderArray, indexHashmap))
              | Some ph \<Rightarrow>
                  if greaterThan_js (indexHashmap (uint8ArrayToText ph)) (indexHashmap cellHashString)
                  then (case moveToTheEnd fuel sha256 uint8ArrayToText indexHashmap topologicalOrderArray cellHash of
                          None \<Rightarrow> None
                        | Some (Inl e) \<Rightarrow> Some (Inl e)
                        | Some (Inr (ih, toa)) \<Rightarrow> Some (Inr (toa, ih)))
                  else Some (Inr (topologicalOrderArray, indexHashmap)))
           else
             forEachM
               (\<lambda>subCell (toa, ih). treeWalk fuel sha256 uint8ArrayToText subCell toa ih (Some cellHash))
               (cellsOf rs)
               (topologicalOrderArray @ [(cellHash, Cell b rs e)],
                indexHashmap(cellHashString \<mapsto> length topologicalOrderArray))))"
  using treeWalk.simps [of fuel sha256 uint8ArrayToText "Cell b rs e" topologicalOrderArray indexHashmap parentHash]
  by (simp only: Cell.sel)

definition demoLeaf :: Cell where
  "demoLeaf = Cell \<lparr>array = [], cursor = 0, length_bits = 0\<rparr> [] False"

definition demoTwin :: Cell where
  "demoTwin = Cell \<lparr>array = [0], cursor = 0, length_bits = 8\<rparr> [] False"

definition demoBranch :: Cell where
  "demoBranch = Cell \<lparr>array = [], cursor = 0, length_bits = 0\<rparr> [RefCell demoLeaf] False"

definition demoRoot :: Cell where
  "demoRoot = Cell \<lparr>array = [], cursor = 0, length_bits = 0\<rparr> [RefCell demoTwin, RefCell demoBranch] False"

lemma demoTwin_hash: "demoTwin \<noteq> demoLeaf \<and> hash (\<lambda>x. x) demoTwin = hash (\<lambda>x. x) demoLeaf"
  by code_simp

lemma demoRoot_hash: "hash (\<lambda>x. x) demoRoot = Inr [2, 0, 0, 0, 0, 1, 0, 0, 1, 0, 0, 0, 0, 0]"
  by code_simp

lemma demoRoot_collisionFree: "collisionFree (\<lambda>x. x) (\<lambda>x. x) demoRoot"
  by code_simp

lemma demoRoot_size: "size demoRoot \<le> 10"
  by (simp add: demoRoot_def demoBranch_def demoLeaf_def demoTwin_def)

lemma demoRoot_walk:
  "case treeWalk 10 (\<lambda>x. x) (\<lambda>x. x) demoRoot [] Map.empty None of
     Some (Inr (toa, ih)) \<Rightarrow>
       map snd toa = [demoRoot, demoBranch, demoTwin] \<and> map ih (map fst toa) = [Some 0, Some 1, Some 2]
       \<and> map (\<lambda>c. serializeForBoc (\<lambda>x. x) (\<lambda>x. x) c ih) (map snd toa)
           = [Inr [2, 0, 2, 1], Inr [1, 0, 2], Inr [0, 0]]
   | _ \<Rightarrow> False"
  by code_simp

text \<open>
  C1. Forward references of the serializer.  Let the hash of the root be computable, let the
  hash keys be free of collisions on the graph (cells of the graph with the same key have the
  same hash and children with the same hashes), and let the fuel cover the size of the root.
  Then \<open>treeWalk\<close>, started on the root with an empty order and an empty index table as \<open>toBoc\<close>
  does, returns an order and an index table such that:
  the order begins with the root;
  every cell of the graph has its hash and, under the key of this hash, an index in the table,
  where the order holds this hash;
  every entry of the order is a cell of the graph with its hash, and the table sends the key of
  this hash to the index of the entry;
  for every entry, at index \<open>i\<close>, every child cell has a hash whose key the table sends to an
  index \<open>j\<close> with \<open>i < j\<close>, inside the order;
  and \<open>serializeForBoc\<close> of the entry at index \<open>i\<close> with this table returns the descriptors and
  data of the cell followed by one non-empty group of bytes for every child, in their order,
  each the big-endian form of the index that the table gives the child's hash, an index that
  is greater than \<open>i\<close> and inside the order.
\<close>

theorem treeWalk_forward_references:
  assumes "hash sha256 root = Inr h0"
    and "collisionFree sha256 uint8ArrayToText root"
    and "size root \<le> fuel"
  shows "\<exists>toa ih. treeWalk fuel sha256 uint8ArrayToText root [] Map.empty None = Some (Inr (toa, ih))
     \<and> toa \<noteq> [] \<and> snd (toa ! 0) = root
     \<and> (\<forall>c \<in> set (allCells root).
           \<exists>h j. hash sha256 c = Inr h \<and> ih (uint8ArrayToText h) = Some j
                 \<and> j < length toa \<and> fst (toa ! j) = h)
     \<and> (\<forall>i < length toa.
           snd (toa ! i) \<in> set (allCells root)
           \<and> hash sha256 (snd (toa ! i)) = Inr (fst (toa ! i))
           \<and> ih (uint8ArrayToText (fst (toa ! i))) = Some i)
     \<and> (\<forall>i < length toa. \<forall>child \<in> set (cellsOf (refs (snd (toa ! i)))).
           \<exists>h j. hash sha256 child = Inr h \<and> ih (uint8ArrayToText h) = Some j
                 \<and> i < j \<and> j < length toa)
     \<and> (\<forall>i < length toa.
           \<exists>d rs. getDataWithDescriptors (snd (toa ! i)) = Inr d
             \<and> serializeForBoc sha256 uint8ArrayToText (snd (toa ! i)) ih = Inr (d @ concat rs)
             \<and> length rs = length (cellsOf (refs (snd (toa ! i))))
             \<and> (\<forall>k < length rs.
                   rs ! k \<noteq> [] \<and> i < bigEndian (rs ! k) \<and> bigEndian (rs ! k) < length toa
                   \<and> (\<exists>h. hash sha256 (cellsOf (refs (snd (toa ! i))) ! k) = Inr h
                          \<and> ih (uint8ArrayToText h) = Some (bigEndian (rs ! k)))))"
proof -
  let ?K = "keyOf sha256 uint8ArrayToText" and ?H = "hashOf sha256"
  from treeWalk_result [OF assms] obtain S where
    tw: "treeWalk fuel sha256 uint8ArrayToText root [] Map.empty None
           = Some (Inr (enc sha256 S, indexMap (map ?K S)))"
    and S: "set S \<subseteq> reach root" "distinct (map ?K S)" "S \<noteq> []" "S ! 0 = root"
    and all: "\<And>c. c \<in> reach root \<Longrightarrow> ?K c \<in> set (map ?K S)"
    and fwd: "\<And>u v. u \<in> set S \<Longrightarrow> v \<in> children u \<Longrightarrow>
                indexOf (?K u) (map ?K S) < indexOf (?K v) (map ?K S)"
    by blast
  let ?toa = "enc sha256 S" and ?ih = "indexMap (map ?K S)"
  have len: "length ?toa = length S" by (simp add: enc_def)
  have ent: "?toa ! i = (?H (S ! i), S ! i)" if "i < length S" for i
    using that by (simp add: enc_def)
  have hashable: "hash sha256 c = Inr (?H c)" if "c \<in> reach root" for c
    using hash_descendants [OF assms(1) that] by (rule hash_hashOf)
  have look: "?ih (uint8ArrayToText (?H c)) = Some (indexOf (?K c) (map ?K S))
      \<and> indexOf (?K c) (map ?K S) < length S
      \<and> ?H (S ! indexOf (?K c) (map ?K S)) = ?H c"
    if c: "c \<in> reach root" for c
  proof -
    let ?j = "indexOf (?K c) (map ?K S)"
    have mem: "?K c \<in> set (map ?K S)" using c by (rule all)
    then have j: "?j < length S" using indexOf_less [of "?K c" "map ?K S"] by simp
    have "map ?K S ! ?j = ?K c" using mem by (rule nth_indexOf)
    then have "?K (S ! ?j) = ?K c" using j by simp
    moreover have "S ! ?j \<in> reach root" using j S(1) by (meson nth_mem subsetD)
    ultimately have "?H (S ! ?j) = ?H c"
      using assms(2) c unfolding collisionFree_def by blast
    moreover have "?ih (uint8ArrayToText (?H c)) = Some ?j"
      using mem by (simp add: indexMap_def keyOf_def)
    ultimately show ?thesis using j by simp
  qed
  have own: "indexOf (?K (S ! i)) (map ?K S) = i" if "i < length S" for i
    using indexOf_nth [OF S(2), of i] that by simp
  have P1: "?toa \<noteq> [] \<and> snd (?toa ! 0) = root" using S(3,4) by (simp add: enc_def)
  have P2: "\<exists>h j. hash sha256 c = Inr h \<and> ?ih (uint8ArrayToText h) = Some j
                 \<and> j < length ?toa \<and> fst (?toa ! j) = h"
    if "c \<in> set (allCells root)" for c
    using hashable [OF that] look [OF that] ent len by auto
  have P3: "snd (?toa ! i) \<in> set (allCells root)
           \<and> hash sha256 (snd (?toa ! i)) = Inr (fst (?toa ! i))
           \<and> ?ih (uint8ArrayToText (fst (?toa ! i))) = Some i"
    if "i < length ?toa" for i
  proof -
    have i: "i < length S" using that len by simp
    then have m: "S ! i \<in> reach root" using S(1) by (meson nth_mem subsetD)
    show ?thesis using ent [OF i] m hashable [OF m] look [OF m] own [OF i] by simp
  qed
  have P4: "\<exists>h j. hash sha256 child = Inr h \<and> ?ih (uint8ArrayToText h) = Some j
                 \<and> i < j \<and> j < length ?toa"
    if "i < length ?toa" "child \<in> set (cellsOf (refs (snd (?toa ! i))))" for i child
  proof -
    have i: "i < length S" using that(1) len by simp
    then have m: "S ! i \<in> reach root" "S ! i \<in> set S" using S(1) by (meson nth_mem subsetD)+
    have ch: "child \<in> children (S ! i)" using that(2) ent [OF i] by simp
    then have c: "child \<in> reach root" using m(1) reach_children_closed by blast
    have "i < indexOf (?K child) (map ?K S)" using fwd [OF m(2) ch] own [OF i] by simp
    then show ?thesis using hashable [OF c] look [OF c] len by auto
  qed
  have P5: "\<exists>d rs. getDataWithDescriptors (snd (?toa ! i)) = Inr d
             \<and> serializeForBoc sha256 uint8ArrayToText (snd (?toa ! i)) ?ih = Inr (d @ concat rs)
             \<and> length rs = length (cellsOf (refs (snd (?toa ! i))))
             \<and> (\<forall>k < length rs.
                   rs ! k \<noteq> [] \<and> i < bigEndian (rs ! k) \<and> bigEndian (rs ! k) < length ?toa
                   \<and> (\<exists>h. hash sha256 (cellsOf (refs (snd (?toa ! i))) ! k) = Inr h
                          \<and> ?ih (uint8ArrayToText h) = Some (bigEndian (rs ! k))))"
    if lt: "i < length ?toa" for i
  proof -
    let ?c = "snd (?toa ! i)"
    from P3 [OF lt] have "hash sha256 ?c = Inr (fst (?toa ! i))" by simp
    from hash_data [OF this] obtain d where d: "getDataWithDescriptors ?c = Inr d" by blast
    have kids: "\<exists>h j. hash sha256 x = Inr h \<and> ?ih (uint8ArrayToText h) = Some j" if "x \<in> children ?c" for x
      using P4 [OF lt that] by blast
    from serializeForBoc_refs [of ?c d sha256 ?ih uint8ArrayToText, OF d kids]
    obtain rs where rs: "serializeForBoc sha256 uint8ArrayToText ?c ?ih = Inr (d @ concat rs)"
      "length rs = length (cellsOf (refs ?c))"
      "\<And>k. k < length rs \<Longrightarrow> rs ! k \<noteq> []
           \<and> (\<exists>h. hash sha256 (cellsOf (refs ?c) ! k) = Inr h
                  \<and> ?ih (uint8ArrayToText h) = Some (bigEndian (rs ! k)))"
      by blast
    have "rs ! k \<noteq> [] \<and> i < bigEndian (rs ! k) \<and> bigEndian (rs ! k) < length ?toa
                   \<and> (\<exists>h. hash sha256 (cellsOf (refs ?c) ! k) = Inr h
                          \<and> ?ih (uint8ArrayToText h) = Some (bigEndian (rs ! k)))"
      if k: "k < length rs" for k
    proof -
      let ?x = "cellsOf (refs ?c) ! k"
      have "?x \<in> children ?c" using k rs(2) by simp
      from P4 [OF lt this] obtain h j where hj: "hash sha256 ?x = Inr h"
        "?ih (uint8ArrayToText h) = Some j" "i < j" "j < length ?toa" by blast
      from rs(3) [OF k] obtain h' where h': "rs ! k \<noteq> []" "hash sha256 ?x = Inr h'"
        "?ih (uint8ArrayToText h') = Some (bigEndian (rs ! k))" by blast
      have "h' = h" using hj(1) h'(2) by simp
      then have "bigEndian (rs ! k) = j" using hj(2) h'(3) by simp
      then show ?thesis using hj h' by auto
    qed
    then show ?thesis using d rs(1,2) by blast
  qed
  show ?thesis
    apply (rule exI [of _ ?toa], rule exI [of _ ?ih])
    apply (intro conjI allI impI ballI)
    subgoal by (rule tw)
    subgoal using P1 by simp
    subgoal using P1 by simp
    subgoal for c by (rule P2)
    subgoal for i using P3 [of i] by simp
    subgoal for i using P3 [of i] by simp
    subgoal for i using P3 [of i] by simp
    subgoal for i child by (rule P4)
    subgoal for i by (rule P5)
    done
qed

theorem treeWalk_forward_references_witness:
  "\<exists>toa ih. treeWalk 10 (\<lambda>x. x) (\<lambda>x. x) demoRoot [] Map.empty None = Some (Inr (toa, ih))
     \<and> toa \<noteq> [] \<and> snd (toa ! 0) = demoRoot
     \<and> (\<forall>c \<in> set (allCells demoRoot).
           \<exists>h j. hash (\<lambda>x. x) c = Inr h \<and> ih h = Some j
                 \<and> j < length toa \<and> fst (toa ! j) = h)
     \<and> (\<forall>i < length toa.
           snd (toa ! i) \<in> set (allCells demoRoot)
           \<and> hash (\<lambda>x. x) (snd (toa ! i)) = Inr (fst (toa ! i))
           \<and> ih (fst (toa ! i)) = Some i)
     \<and> (\<forall>i < length toa. \<forall>child \<in> set (cellsOf (refs (snd (toa ! i)))).
           \<exists>h j. hash (\<lambda>x. x) child = Inr h \<and> ih h = Some j
                 \<and> i < j \<and> j < length toa)
     \<and> (\<forall>i < length toa.
           \<exists>d rs. getDataWithDescriptors (snd (toa ! i)) = Inr d
             \<and> serializeForBoc (\<lambda>x. x) (\<lambda>x. x) (snd (toa ! i)) ih = Inr (d @ concat rs)
             \<and> length rs = length (cellsOf (refs (snd (toa ! i))))
             \<and> (\<forall>k < length rs.
                   rs ! k \<noteq> [] \<and> i < bigEndian (rs ! k) \<and> bigEndian (rs ! k) < length toa
                   \<and> (\<exists>h. hash (\<lambda>x. x) (cellsOf (refs (snd (toa ! i))) ! k) = Inr h
                          \<and> ih h = Some (bigEndian (rs ! k)))))"
  using treeWalk_forward_references [OF demoRoot_hash demoRoot_collisionFree demoRoot_size] .

section \<open>The size fields of the serializer\<close>

subsection \<open>Bits packed into bytes\<close>

text \<open>
  The bytes that a fresh bit string holds after a sequence of bits has been written to it:
  \<open>packBytes\<close> packs the bits eight to a byte, the first bit the most significant one.
  \<open>uintBits w n\<close> are the \<open>w\<close> bits that \<open>writeUint\<close> writes for \<open>n\<close>, and \<open>uintBytes m n\<close> the
  \<open>m\<close> bytes of an \<open>8 * m\<close>-bit field.
\<close>

definition bitsValue :: "bool list \<Rightarrow> nat" where
  "bitsValue bs = foldl (\<lambda>a v. 2 * a + (if v then 1 else 0)) 0 bs"

definition packByte :: "bool list \<Rightarrow> u8" where
  "packByte bs = of_nat (bitsValue bs)"

function packBytes :: "bool list \<Rightarrow> u8 list" where
  "packBytes bs = (if length bs < 8 then [] else packByte (take 8 bs) # packBytes (drop 8 bs))"
  by pat_completeness auto
termination
  by (relation "measure length") auto

declare packBytes.simps [simp del]

definition uintBits :: "nat \<Rightarrow> int \<Rightarrow> bool list" where
  "uintBits w n = map (isOne (BN_toString2 n w)) [0..<w]"

definition byteBits :: "u8 \<Rightarrow> bool list" where
  "byteBits x = uintBits 8 (uint x)"

definition uintBytes :: "nat \<Rightarrow> nat \<Rightarrow> u8 list" where
  "uintBytes m n = packBytes (uintBits (8 * m) (int n))"

lemma length_uintBits [simp]: "length (uintBits w n) = w"
  by (simp add: uintBits_def)

lemma length_byteBits [simp]: "length (byteBits x) = 8"
  by (simp add: byteBits_def)

lemma bitsValue_snoc: "bitsValue (bs @ [v]) = 2 * bitsValue bs + (if v then 1 else 0)"
  by (simp add: bitsValue_def)

lemma bitsValue_Nil [simp]: "bitsValue [] = 0"
  by (simp add: bitsValue_def)

lemma bitsValue_less: "bitsValue bs < 2 ^ length bs"
proof (induction bs rule: rev_induct)
  case (snoc v bs)
  then show ?case by (simp add: bitsValue_snoc)
qed simp

lemma bit_bitsValue: "bit (bitsValue bs) n \<longleftrightarrow> n < length bs \<and> bs ! (length bs - 1 - n)"
proof (induction bs arbitrary: n rule: rev_induct)
  case Nil
  then show ?case by simp
next
  case (snoc v bs)
  show ?case
  proof (cases n)
    case 0
    then show ?thesis by (simp add: bitsValue_snoc bit_0)
  next
    case (Suc m)
    have "bit (2 * bitsValue bs + (if v then 1 else 0)) (Suc m) = bit (bitsValue bs) m"
      by (simp add: bit_Suc)
    then show ?thesis using Suc snoc [of m] by (auto simp: bitsValue_snoc nth_append)
  qed
qed

lemma bit_packByte:
  assumes "length bs = 8" "n < 8"
  shows "bit (packByte bs) n = bs ! (7 - n)"
proof -
  have "bit (packByte bs) n = bit (bitsValue bs) n"
    using assms(2) by (simp add: packByte_def bit_of_nat_iff possible_bit_word)
  then show ?thesis using assms by (simp add: bit_bitsValue)
qed

lemma unat_packByte: "length bs \<le> 8 \<Longrightarrow> unat (packByte bs) = bitsValue bs"
proof -
  assume "length bs \<le> 8"
  then have "(2::nat) ^ length bs \<le> 2 ^ 8" by (intro power_increasing) simp_all
  then have "bitsValue bs < 2 ^ LENGTH(8)" using bitsValue_less [of bs] by simp
  then show ?thesis unfolding packByte_def by (simp only: unat_of_nat mod_less)
qed

lemma packBytes_short: "length bs < 8 \<Longrightarrow> packBytes bs = []"
  by (subst packBytes.simps) simp

lemma packBytes_step: "8 \<le> length bs \<Longrightarrow> packBytes bs = packByte (take 8 bs) # packBytes (drop 8 bs)"
  by (subst packBytes.simps) simp

lemma packBytes_8: "length bs = 8 \<Longrightarrow> packBytes bs = [packByte bs]"
  by (simp add: packBytes_step packBytes_short)

lemma length_packBytes: "length (packBytes bs) = length bs div 8"
proof (induction bs rule: packBytes.induct)
  case (1 bs)
  show ?case
  proof (cases "length bs < 8")
    case True
    then show ?thesis by (simp add: packBytes_short)
  next
    case False
    then have "length bs = 8 + (length bs - 8)" by simp
    then have "length bs div 8 = Suc ((length bs - 8) div 8)"
      by (metis add.commute div_add_self2 zero_neq_numeral Suc_eq_plus1 add.commute)
    then show ?thesis using False 1 by (simp add: packBytes_step)
  qed
qed

lemma packBytes_append:
  "length xs mod 8 = 0 \<Longrightarrow> packBytes (xs @ ys) = packBytes xs @ packBytes ys"
proof (induction xs rule: packBytes.induct)
  case (1 xs)
  show ?case
  proof (cases "length xs < 8")
    case True
    with 1(2) have "xs = []" by (cases xs) auto
    then show ?thesis by (simp add: packBytes_short)
  next
    case False
    then have len: "8 \<le> length xs" by simp
    have "length (drop 8 xs) mod 8 = 0" using 1(2) len by (simp add: mod_diff_eq) presburger
    with 1(1) False have IH: "packBytes (drop 8 xs @ ys) = packBytes (drop 8 xs) @ packBytes ys" by simp
    have "packBytes (xs @ ys) = packByte (take 8 (xs @ ys)) # packBytes (drop 8 (xs @ ys))"
      using len by (intro packBytes_step) simp
    also have "\<dots> = packByte (take 8 xs) # packBytes (drop 8 xs @ ys)" using len by simp
    finally show ?thesis using IH len by (simp add: packBytes_step)
  qed
qed

lemma packBytes_nth:
  "k < length bs div 8 \<Longrightarrow> packBytes bs ! k = packByte (take 8 (drop (8 * k) bs))"
proof (induction bs arbitrary: k rule: packBytes.induct)
  case (1 bs)
  from 1(2) have len: "8 \<le> length bs" by (cases "length bs < 8") simp_all
  show ?case
  proof (cases k)
    case 0
    then show ?thesis using len by (simp add: packBytes_step)
  next
    case (Suc j)
    have "length bs = 8 + (length bs - 8)" using len by simp
    then have "length bs div 8 = Suc ((length bs - 8) div 8)"
      by (metis add.commute div_add_self2 zero_neq_numeral Suc_eq_plus1 add.commute)
    then have "j < length (drop 8 bs) div 8" using 1(2) Suc by simp
    with 1(1) len have "packBytes (drop 8 bs) ! j = packByte (take 8 (drop (8 * j) (drop 8 bs)))" by simp
    then show ?thesis using Suc len by (simp add: packBytes_step add.commute)
  qed
qed

subsection \<open>Writers as sequences of bits\<close>

text \<open>
  \<open>writes f C vs\<close>: the writer \<open>f\<close> succeeds exactly when the condition \<open>C\<close> holds and the bits
  \<open>vs\<close> fit the bit string, and it then writes the bits \<open>vs\<close>.
\<close>

lemma andThen_assoc: "andThen (andThen m f) g = andThen m (\<lambda>x. andThen (f x) g)"
  by (cases m) simp_all

lemma andThen_eq_Inr: "andThen m f = Inr r \<longleftrightarrow> (\<exists>x. m = Inr x \<and> f x = Inr r)"
  by (cases m) simp_all

lemma writeBitArray_append:
  "writeBitArray (xs @ ys) b = andThen (writeBitArray xs b) (writeBitArray ys)"
proof (induction xs arbitrary: b)
  case (Cons v xs)
  then show ?case by (cases "writeBit v b") simp_all
qed simp

definition writes :: "(BitString \<Rightarrow> error + BitString) \<Rightarrow> bool \<Rightarrow> bool list \<Rightarrow> bool" where
  "writes f C vs \<longleftrightarrow> (\<forall>b b'. f b = Inr b' \<longleftrightarrow> C \<and> writeBitArray vs b = Inr b')"

definition seqW ::
  "(BitString \<Rightarrow> error + BitString) \<Rightarrow> (BitString \<Rightarrow> error + BitString) \<Rightarrow> BitString \<Rightarrow> error + BitString" where
  "seqW f g = (\<lambda>b. andThen (f b) g)"

lemma writes_seq:
  assumes "writes f C xs" "writes g D ys"
  shows "writes (seqW f g) (C \<and> D) (xs @ ys)"
  using assms unfolding writes_def seqW_def writeBitArray_append andThen_eq_Inr by blast

lemma writes_writeBitArray: "writes (writeBitArray xs) True xs"
  by (simp add: writes_def)

lemma writes_cond:
  assumes "writes f C xs"
  shows "writes (\<lambda>b. if c then f b else Inr b) (c \<longrightarrow> C) (if c then xs else [])"
  using assms by (simp add: writes_def)

lemma writes_weaken: "writes f C xs \<Longrightarrow> C = D \<Longrightarrow> writes f D xs"
  by simp

lemma BN_toString2_nat: "BN_toString2 (int k) 1 = Number_toString2 k"
  by (simp add: BN_toString2_def Number_toString2_def padLeft_def)

lemma fits_nat: "0 < w \<Longrightarrow> length (BN_toString2 (int k) 1) \<le> w \<longleftrightarrow> k < 2 ^ w"
  unfolding BN_toString2_nat
  by (cases "k = 0") (simp_all add: Number_toString2_def length_binaryDigits Suc_le_eq)

lemma writes_writeUint:
  assumes "0 < w"
  shows "writes (writeUint (Number n) w) (\<bar>n\<bar> < 2 ^ 53 \<and> length (BN_toString2 n 1) \<le> w) (uintBits w n)"
proof -
  have zero: "length (BN_toString2 0 1) \<le> w" using assms by (simp add: BN_toString2_def padLeft_def Suc_le_eq)
  show ?thesis
    unfolding writes_def
  proof (intro allI)
    fix b b'
    show "writeUint (Number n) w b = Inr b'
        \<longleftrightarrow> (\<bar>n\<bar> < 2 ^ 53 \<and> length (BN_toString2 n 1) \<le> w) \<and> writeBitArray (uintBits w n) b = Inr b'"
    proof (cases "\<bar>n\<bar> < 2 ^ 53")
      case False
      then show ?thesis using assms by (simp add: writeUint_def)
    next
      case safe: True
      show ?thesis
      proof (cases "length (BN_toString2 n 1) \<le> w")
        case True
        then show ?thesis
          using assms safe by (simp add: writeUint_def writeUint_loop_eq uintBits_def)
      next
        case False
        then have "n \<noteq> 0" using zero by auto
        then show ?thesis using assms safe False by (simp add: writeUint_def)
      qed
    qed
  qed
qed

lemma writes_writeUint_nat:
  assumes "0 < w"
  shows "writes (writeUint (Number (int k)) w) (k < 2 ^ 53 \<and> k < 2 ^ w) (uintBits w (int k))"
proof -
  have "(\<bar>int k\<bar> < 2 ^ 53 \<and> length (BN_toString2 (int k) 1) \<le> w) = (k < 2 ^ 53 \<and> k < 2 ^ w)"
    using fits_nat [OF assms, of k] by (simp add: of_nat_less_numeral_power_cancel_iff)
  with writes_writeUint [OF assms, of "int k"] show ?thesis by simp
qed

lemma writes_writeUint8: "writes (writeUint8 (int k)) (k < 256) (uintBits 8 (int k))"
proof -
  have "(k < 2 ^ 53 \<and> k < 2 ^ 8) = (k < 256)" by auto
  with writes_writeUint_nat [of 8 k] show ?thesis by (simp add: writeUint8_def [abs_def])
qed

lemma writes_writeBytes: "writes (writeBytes bs) True (concat (map byteBits bs))"
proof (induction bs)
  case Nil
  show ?case by (simp add: writes_def)
next
  case (Cons x xs)
  have eq: "writeBytes (x # xs) = seqW (writeUint8 (uint x)) (writeBytes xs)"
    by (rule ext) (simp add: seqW_def)
  have "unat x < 2 ^ LENGTH(8)" by (rule unsigned_less)
  then have "unat x < 256" by simp
  then have "writes (writeUint8 (int (unat x))) True (uintBits 8 (int (unat x)))"
    using writes_writeUint8 [of "unat x"] by simp
  then have "writes (writeUint8 (uint x)) True (byteBits x)" by (simp add: byteBits_def)
  from writes_seq [OF this Cons] show ?case unfolding eq by simp
qed

lemma writes_indexLoop:
  assumes "0 < w"
  shows "writes (indexLoop xs w) (\<forall>x \<in> set xs. x < 2 ^ 53 \<and> x < 2 ^ w)
           (concat (map (\<lambda>x. uintBits w (int x)) xs))"
proof (induction xs)
  case Nil
  show ?case by (simp add: writes_def)
next
  case (Cons x xs)
  have eq: "indexLoop (x # xs) w = seqW (writeUint (Number (int x)) w) (indexLoop xs w)"
    by (rule ext) (simp add: seqW_def)
  from writes_seq [OF writes_writeUint_nat [OF assms, of x] Cons] show ?case unfolding eq by simp
qed

lemma writes_bodyLoop:
  "mapE (\<lambda>cell_info. serializeForBoc sha256 txt (snd cell_info) cellsIndex) ord = Inr sers
     \<Longrightarrow> writes (bodyLoop sha256 txt cellsIndex ord) True (concat (map byteBits (concat sers)))"
proof (induction ord arbitrary: sers)
  case Nil
  then show ?case by (simp add: writes_def)
next
  case (Cons ci rest)
  from Cons.prems obtain y ys where y: "serializeForBoc sha256 txt (snd ci) cellsIndex = Inr y"
    "mapE (\<lambda>cell_info. serializeForBoc sha256 txt (snd cell_info) cellsIndex) rest = Inr ys" "sers = y # ys"
    by (cases "serializeForBoc sha256 txt (snd ci) cellsIndex";
        cases "mapE (\<lambda>cell_info. serializeForBoc sha256 txt (snd cell_info) cellsIndex) rest") auto
  have eq: "bodyLoop sha256 txt cellsIndex (ci # rest) = seqW (writeBytes y) (bodyLoop sha256 txt cellsIndex rest)"
    by (rule ext) (simp add: seqW_def y(1))
  from writes_seq [OF writes_writeBytes [of y] Cons.IH [OF y(2)]] show ?case
    unfolding eq y(3) by simp
qed

lemma flags_fit: "\<bar>n\<bar> < 2 ^ 53 \<and> length (BN_toString2 n 1) \<le> 2 \<longleftrightarrow> - 1 \<le> n \<and> n \<le> (3::int)"
proof (cases "0 \<le> n")
  case True
  then obtain k where k: "n = int k" by (metis nonneg_int_cases)
  have "k < 4 \<Longrightarrow> int k < 2 ^ 53" by simp
  then show ?thesis using fits_nat [of 2 k] unfolding k by auto
next
  case False
  then have neg: "n < 0" "n \<noteq> 0" by simp_all
  have "BN_toString2 n 1 = CHR ''-'' # binaryDigits (nat \<bar>n\<bar>)"
    using neg by (simp add: BN_toString2_def padLeft_def)
  then have "length (BN_toString2 n 1) \<le> 2 \<longleftrightarrow> nat \<bar>n\<bar> < 2 ^ 1"
    using length_binaryDigits [of "nat \<bar>n\<bar>" 1] by simp
  then show ?thesis using neg by auto
qed

lemma isOne_map: "map (isOne s) [0..<length s] = map (\<lambda>c. c = CHR ''1'') s"
  by (rule nth_equalityI) (simp_all add: isOne_def)

lemma bitsValue_parse:
  "int (foldl (\<lambda>a v. 2 * a + (if v then 1 else 0)) a (map (\<lambda>c. c = CHR ''1'') s))
     = foldl (\<lambda>a c. 2 * a + (if c = CHR ''1'' then 1 else 0)) (int a) s"
  by (induction s arbitrary: a) simp_all

lemma bitsValue_uintBits:
  assumes "0 < w" "k < 2 ^ w"
  shows "bitsValue (uintBits w (int k)) = k"
proof -
  let ?s = "BN_toString2 (int k) w"
  have "int k < 2 ^ w" using assms(2) by (simp add: of_nat_less_numeral_power_cancel_iff)
  from BN_toString2_fits [OF _ this assms(1)]
  have len: "length ?s = w" and val: "BN_parse2 ?s = int k" by simp_all
  have "uintBits w (int k) = map (\<lambda>c. c = CHR ''1'') ?s"
    using isOne_map [of ?s] len by (simp add: uintBits_def)
  then have "int (bitsValue (uintBits w (int k))) = BN_parse2 ?s"
    using bitsValue_parse [of 0 ?s] by (simp add: bitsValue_def BN_parse2_def)
  then show ?thesis using val by simp
qed

lemma packBytes_uint8: "k < 256 \<Longrightarrow> packBytes (uintBits 8 (int k)) = [of_nat k]"
  using bitsValue_uintBits [of 8 k] by (simp add: packBytes_8 packByte_def)

lemma packBytes_byteBits: "packBytes (byteBits x) = [x]"
proof -
  have "unat x < 2 ^ LENGTH(8)" by (rule unsigned_less)
  then have "unat x < 256" by simp
  from packBytes_uint8 [OF this] show ?thesis by (simp add: byteBits_def)
qed

lemma packBytes_bytes: "packBytes (concat (map byteBits bs)) = bs"
proof (induction bs)
  case Nil
  show ?case by (simp add: packBytes_short)
next
  case (Cons x xs)
  have "packBytes (byteBits x @ concat (map byteBits xs))
      = packBytes (byteBits x) @ packBytes (concat (map byteBits xs))"
    by (rule packBytes_append) simp
  then show ?case using Cons by (simp add: packBytes_byteBits)
qed

lemma length_bytesBits: "length (concat (map byteBits bs)) = 8 * length bs"
  by (induction bs) simp_all

lemma length_uintBytes: "length (uintBytes m n) = m"
  by (simp add: uintBytes_def length_packBytes)

lemma bitsValue_append: "bitsValue (xs @ ys) = bitsValue xs * 2 ^ length ys + bitsValue ys"
proof (induction ys rule: rev_induct)
  case (snoc v ys)
  have "bitsValue (xs @ ys @ [v]) = 2 * bitsValue (xs @ ys) + (if v then 1 else 0)"
    using bitsValue_snoc [of "xs @ ys" v] by simp
  then show ?case using snoc by (simp add: bitsValue_snoc algebra_simps)
qed simp

lemma bigEndian_Cons: "bigEndian (x # xs) = unat x * 256 ^ length xs + bigEndian xs"
proof -
  have "foldl (\<lambda>a b. 256 * a + unat b) a xs = a * 256 ^ length xs + foldl (\<lambda>a b. 256 * a + unat b) 0 xs" for a
  proof (induction xs arbitrary: a rule: rev_induct)
    case (snoc y ys)
    show ?case using snoc [of a] by (simp add: algebra_simps)
  qed simp
  from this [of "unat x"] show ?thesis by (simp add: bigEndian_def)
qed

lemma bigEndian_packBytes: "length bs mod 8 = 0 \<Longrightarrow> bigEndian (packBytes bs) = bitsValue bs"
proof (induction bs rule: packBytes.induct)
  case (1 bs)
  show ?case
  proof (cases "length bs < 8")
    case True
    with 1(2) have "bs = []" by (cases bs) auto
    then show ?thesis by (simp add: packBytes_short bigEndian_def)
  next
    case False
    then have len: "8 \<le> length bs" by simp
    have m: "length (drop 8 bs) mod 8 = 0" using 1(2) len by (simp add: mod_diff_eq) presburger
    with 1(1) False have IH: "bigEndian (packBytes (drop 8 bs)) = bitsValue (drop 8 bs)" by simp
    have "8 dvd length (drop 8 bs)" using m by (simp add: dvd_eq_mod_eq_0)
    then obtain q where q: "length (drop 8 bs) = 8 * q" by (auto elim: dvdE)
    have lp: "length (packBytes (drop 8 bs)) = q" using q by (simp add: length_packBytes)
    have "bitsValue bs = bitsValue (take 8 bs @ drop 8 bs)" by simp
    also have "\<dots> = bitsValue (take 8 bs) * 2 ^ length (drop 8 bs) + bitsValue (drop 8 bs)"
      by (rule bitsValue_append)
    also have "(2::nat) ^ length (drop 8 bs) = 256 ^ q" unfolding q by (simp add: power_mult)
    finally have "bitsValue bs = bitsValue (take 8 bs) * 256 ^ q + bitsValue (drop 8 bs)" .
    moreover have "unat (packByte (take 8 bs)) = bitsValue (take 8 bs)"
      by (rule unat_packByte) simp
    ultimately show ?thesis
      using len IH lp by (simp add: packBytes_step bigEndian_Cons)
  qed
qed

lemma bigEndian_uintBytes: "0 < m \<Longrightarrow> n < 2 ^ (8 * m) \<Longrightarrow> bigEndian (uintBytes m n) = n"
  unfolding uintBytes_def by (simp add: bigEndian_packBytes bitsValue_uintBits)

subsection \<open>The bytes of a fresh bit string\<close>

lemma writeBit_length_bits: "writeBit v b = Inr b' \<Longrightarrow> length_bits b' = length_bits b"
  by (auto simp: writeBit_def on_def off_def checkRange_def split: if_splits)

lemma writeBitArray_overflow:
  "vs \<noteq> [] \<Longrightarrow> cursor b + length vs > length_bits b + 1 \<Longrightarrow> writeBitArray vs b = Inl BitStringOverflow"
proof (induction vs arbitrary: b)
  case Nil
  then show ?case by simp
next
  case (Cons v vs)
  show ?case
  proof (cases "cursor b > length_bits b")
    case True
    then show ?thesis by (simp add: writeBit_past_capacity)
  next
    case False
    then have "cursor b \<le> length_bits b" by simp
    from writeBit_within_capacity [OF this, of v]
    obtain b1 where b1: "writeBit v b = Inr b1" "cursor b1 = cursor b + 1" by blast
    have lb: "length_bits b1 = length_bits b" using b1(1) by (rule writeBit_length_bits)
    have ne: "vs \<noteq> []" using Cons.prems(2) False by auto
    have "cursor b1 + length vs > length_bits b1 + 1" using Cons.prems(2) b1(2) lb by simp
    from Cons.IH [OF ne this] show ?thesis using b1(1) by simp
  qed
qed

lemma getTopUppedArray_aligned:
  assumes "cursor b mod 8 = 0"
  shows "getTopUppedArray b = Inr (take (cursor b div 8) (array b))"
proof -
  have "(cursor b + 7) div 8 = cursor b div 8" using assms by (simp add: ceil_div8)
  moreover have "cursor b div 8 * 8 = cursor b" using assms by (simp add: mod_eq_0_iff_dvd)
  ultimately show ?thesis by (simp add: getTopUppedArray_def clone_def Let_def)
qed

lemma aligned_room:
  assumes "length vs mod 8 = 0" "length vs \<le> cap + 1"
  shows "length vs \<le> 8 * ((cap + 7) div 8)"
proof -
  from assms(1) obtain q where q: "length vs = 8 * q" by (auto simp: mod_eq_0_iff_dvd elim: dvdE)
  have "8 * q \<le> cap + 7" using assms(2) q by simp
  then have "(8 * q) div 8 \<le> (cap + 7) div 8" by (rule div_le_mono)
  then have "q \<le> (cap + 7) div 8" by simp
  then show ?thesis using q by simp
qed

lemma byte_of_bits:
  assumes g: "\<And>p. p < length vs \<Longrightarrow> getBit a p = vs ! p" and k: "8 * k + 8 \<le> length vs"
    and ka: "k < length a"
  shows "a ! k = packByte (take 8 (drop (8 * k) vs))"
proof (rule bit_word_eqI)
  fix n assume "n < LENGTH(8)"
  then have n: "n < 8" by simp
  define m where "m = 7 - n"
  have m: "m < 8" "7 - m = n" using n by (simp_all add: m_def)
  let ?p = "8 * k + m"
  have p: "?p < length vs" using k m(1) by simp
  have d: "?p div 8 = k" "?p mod 8 = m" using m(1) by simp_all
  have "getBit a ?p = vs ! ?p" using g [OF p] .
  moreover have "getBit a ?p \<longleftrightarrow> bit (a ! k) n"
    unfolding getBit_iff d using m(2) ka by simp
  moreover have "bit (packByte (take 8 (drop (8 * k) vs))) n = vs ! ?p"
  proof -
    have "length (take 8 (drop (8 * k) vs)) = 8" using k by simp
    from bit_packByte [OF this n]
    show ?thesis using k m(1) by (simp add: m_def)
  qed
  ultimately show "bit (a ! k) n = bit (packByte (take 8 (drop (8 * k) vs))) n" by simp
qed

lemma emit_fresh:
  assumes al: "length vs mod 8 = 0"
  shows "andThen (writeBitArray vs (new_BitString cap)) getTopUppedArray
     = (if length vs \<le> cap + 1 then Inr (packBytes vs) else Inl BitStringOverflow)"
proof (cases "length vs \<le> cap + 1")
  case False
  then have "vs \<noteq> []" by auto
  moreover have "cursor (new_BitString cap) + length vs > length_bits (new_BitString cap) + 1"
    using False by (simp add: new_BitString_def)
  ultimately have "writeBitArray vs (new_BitString cap) = Inl BitStringOverflow"
    by (rule writeBitArray_overflow)
  then show ?thesis using False by simp
next
  case True
  let ?b = "new_BitString cap"
  have room: "length vs \<le> 8 * ((cap + 7) div 8)" using al True by (rule aligned_room)
  have "vs \<noteq> [] \<Longrightarrow>
     cursor ?b + length vs \<le> length_bits ?b + 1 \<and> cursor ?b + length vs \<le> 8 * length (array ?b)"
    using True room by (simp add: new_BitString_def)
  from writeBitArray_ok [OF this]
  obtain b' where b': "writeBitArray vs ?b = Inr b'" "cursor b' = cursor ?b + length vs"
    "length (array b') = length (array ?b)"
    "\<forall>p. get b' p = (if cursor ?b \<le> p \<and> p < cursor ?b + length vs then vs ! (p - cursor ?b) else get ?b p)"
    by blast
  have c: "cursor b' = length vs" using b'(2) by (simp add: new_BitString_def)
  have la: "length (array b') = (cap + 7) div 8" using b'(3) by (simp add: new_BitString_def)
  have g: "getBit (array b') p = vs ! p" if "p < length vs" for p
    using b'(4) that by (simp add: get_def [symmetric] new_BitString_def)
  have "take (length vs div 8) (array b') = packBytes vs"
  proof (rule nth_equalityI)
    have "length vs div 8 \<le> (cap + 7) div 8" using room by simp
    then show "length (take (length vs div 8) (array b')) = length (packBytes vs)"
      using la by (simp add: length_packBytes)
  next
    fix k assume "k < length (take (length vs div 8) (array b'))"
    then have k: "k < length vs div 8" "k < length (array b')" by simp_all
    from al obtain q where q: "length vs = 8 * q" by (auto simp: mod_eq_0_iff_dvd elim: dvdE)
    have "8 * k + 8 \<le> length vs" using k(1) unfolding q by simp
    from byte_of_bits [OF g this k(2)] have "array b' ! k = packByte (take 8 (drop (8 * k) vs))" by simp
    then show "take (length vs div 8) (array b') ! k = packBytes vs ! k"
      using k by (simp add: packBytes_nth)
  qed
  moreover have "getTopUppedArray b' = Inr (take (cursor b' div 8) (array b'))"
    using al c by (intro getTopUppedArray_aligned) simp
  ultimately show ?thesis using True b'(1) c by simp
qed

subsection \<open>The layout of a bag of cells\<close>

text \<open>
  \<open>toBoc_offset_bytes\<close> is the number of bytes of an offset, \<open>max (ceil (bits / 8), 1)\<close> for the
  bits of the total size of the cells.  \<open>bocBytes\<close> lists the bytes of a bag of cells in the
  order in which \<open>toBoc\<close> writes them; \<open>toBoc_serialize_iff\<close> below shows that they are the bytes
  that the code returns.
\<close>

fun offsetsFrom :: "nat \<Rightarrow> nat list \<Rightarrow> nat list" where
  "offsetsFrom a [] = []"
| "offsetsFrom a (l # ls) = a # offsetsFrom (a + l) ls"

definition toBoc_offset_bytes :: "nat \<Rightarrow> nat" where
  "toBoc_offset_bytes full_size =
     (let offset_bits = length (Number_toString2 full_size) in max ((offset_bits + 7) div 8) 1)"

definition bocBytes :: "bool \<Rightarrow> bool \<Rightarrow> bool \<Rightarrow> int \<Rightarrow> nat \<Rightarrow> u8 list list \<Rightarrow> u8 list" where
  "bocBytes has_idx hash_crc32 has_cache_bits flags n sers =
     (let full_size = length (concat sers);
          offset_bytes = toBoc_offset_bytes full_size
      in reachBocMagicPrefix
         @ [packByte ([has_idx, hash_crc32, has_cache_bits] @ uintBits 2 flags @ uintBits 3 1)]
         @ [of_nat offset_bytes]
         @ [of_nat n] @ [1] @ [0]
         @ uintBytes offset_bytes full_size
         @ [0]
         @ (if has_idx then concat (map (uintBytes offset_bytes) (offsetsFrom 0 (map length sers))) else [])
         @ concat sers)"

lemma Number_toString2_nonempty: "0 < length (Number_toString2 n)"
  by (simp add: Number_toString2_def binaryDigits_nonempty)

lemma toBoc_s_bytes_one: "toBoc_s_bytes n = 1"
proof -
  have "1 \<le> length (Number_toString2 n)"
    using Number_toString2_nonempty [of n] by (simp add: Suc_le_eq)
  then have "(1 + 7) div 8 \<le> (length (Number_toString2 n) + 7) div 8"
    by (intro div_le_mono) simp
  then have "0 < (length (Number_toString2 n) + 7) div 8" by simp
  then show ?thesis by (simp add: toBoc_s_bytes_def Let_def)
qed

lemma sizeLoop_eq:
  "sizeLoop sha256 txt cellsIndex ord full_size sizeIndex
     = andThen (mapE (\<lambda>cell_info. serializeForBoc sha256 txt (snd cell_info) cellsIndex) ord)
         (\<lambda>sers. Inr (full_size + length (concat sers), sizeIndex @ offsetsFrom full_size (map length sers)))"
proof (induction ord arbitrary: full_size sizeIndex)
  case Nil
  show ?case by simp
next
  case (Cons ci rest)
  show ?case
  proof (cases "serializeForBoc sha256 txt (snd ci) cellsIndex")
    case (Inl e)
    then show ?thesis by (simp add: bocSerializationSize_def)
  next
    case (Inr y)
    show ?thesis
    proof (cases "mapE (\<lambda>cell_info. serializeForBoc sha256 txt (snd cell_info) cellsIndex) rest")
      case (Inl e)
      then show ?thesis using Inr Cons [of "full_size + length y" "sizeIndex @ [full_size]"]
        by (simp add: bocSerializationSize_def)
    next
      case ys: (Inr ys)
      then show ?thesis using Inr Cons [of "full_size + length y" "sizeIndex @ [full_size]"]
        by (simp add: bocSerializationSize_def)
    qed
  qed
qed

lemma offsetsFrom_bounds: "x \<in> set (offsetsFrom a ls) \<Longrightarrow> x \<le> a + sum_list ls"
proof (induction ls arbitrary: a)
  case (Cons l ls)
  from Cons.prems have "x = a \<or> x \<in> set (offsetsFrom (a + l) ls)" by simp
  then show ?case
  proof
    assume "x \<in> set (offsetsFrom (a + l) ls)"
    from Cons.IH [OF this] show ?thesis by simp
  qed simp
qed simp

lemma length_offsetsFrom [simp]: "length (offsetsFrom a ls) = length ls"
  by (induction ls arbitrary: a) simp_all

lemma length_concat_sum: "length (concat xss) = sum_list (map length xss)"
  by (induction xss) simp_all

lemma offset_bytes_fits:
  "n < 2 ^ (8 * max ((length (Number_toString2 n) + 7) div 8) 1)"
proof -
  let ?l = "length (Number_toString2 n)"
  have "?l \<le> 8 * ((?l + 7) div 8)" by (simp add: ceil_div8) presburger
  also have "\<dots> \<le> 8 * max ((?l + 7) div 8) 1" by simp
  finally have le: "?l \<le> 8 * max ((?l + 7) div 8) 1" .
  show ?thesis
  proof (cases "n = 0")
    case True
    then show ?thesis by simp
  next
    case False
    then have "length (binaryDigits n) \<le> 8 * max ((?l + 7) div 8) 1"
      using le by (simp add: Number_toString2_def)
    then show ?thesis by (simp only: length_binaryDigits)
  qed
qed

lemma offset_bytes_small:
  assumes "n < 2 ^ 53"
  shows "max ((length (Number_toString2 n) + 7) div 8) 1 \<le> 7"
proof -
  have "length (Number_toString2 n) \<le> 53"
  proof (cases "n = 0")
    case True
    then show ?thesis by (simp add: Number_toString2_def)
  next
    case False
    then show ?thesis using assms by (simp add: Number_toString2_def length_binaryDigits)
  qed
  then have "(length (Number_toString2 n) + 7) div 8 \<le> (53 + 7) div 8"
    by (intro div_le_mono) simp
  then show ?thesis by simp
qed

lemma packBytes_index:
  "packBytes (concat (map (\<lambda>x. uintBits (8 * m) (int x)) xs) @ rest)
     = concat (map (uintBytes m) xs) @ packBytes rest"
proof (induction xs)
  case Nil
  show ?case by simp
next
  case (Cons x xs)
  have "packBytes (uintBits (8 * m) (int x) @ (concat (map (\<lambda>x. uintBits (8 * m) (int x)) xs) @ rest))
      = packBytes (uintBits (8 * m) (int x)) @ packBytes (concat (map (\<lambda>x. uintBits (8 * m) (int x)) xs) @ rest)"
    by (rule packBytes_append) simp
  then show ?case using Cons by (simp add: uintBytes_def)
qed

lemma length_index_bits:
  "length (concat (map (\<lambda>x. uintBits w (int x)) xs)) = w * length xs"
  by (induction xs) simp_all

lemma pack_cons8: "length xs = 8 \<Longrightarrow> packBytes (xs @ ys) = packByte xs # packBytes ys"
  using packBytes_append [of xs ys] by (simp add: packBytes_8)

lemma pack_uint8: "k < 256 \<Longrightarrow> packBytes (uintBits 8 (int k) @ ys) = of_nat k # packBytes ys"
  using packBytes_append [of "uintBits 8 (int k)" ys] by (simp add: packBytes_uint8)

lemma pack_uintN: "packBytes (uintBits (m * 8) (int k) @ ys) = uintBytes m k @ packBytes ys"
  using packBytes_append [of "uintBits (m * 8) (int k)" ys] by (simp add: uintBytes_def mult.commute)

lemma pack_bytes: "packBytes (concat (map byteBits bs) @ ys) = bs @ packBytes ys"
  using packBytes_append [of "concat (map byteBits bs)" ys]
  by (simp add: packBytes_bytes length_bytesBits)

lemma pack_index:
  "packBytes (concat (map (\<lambda>x. uintBits (m * 8) (int x)) xs) @ ys)
     = concat (map (uintBytes m) xs) @ packBytes ys"
  using packBytes_index [of m xs ys] by (simp add: mult.commute)

lemma packBytes_layout:
  assumes "ob < 256" "n < 256"
  shows "packBytes
     (concat (map byteBits magic) @ [a, b, c]
      @ uintBits 2 flags @ uintBits 3 (int 1) @ uintBits 8 (int ob) @ uintBits 8 (int n)
      @ uintBits 8 (int 1) @ uintBits 8 (int 0) @ uintBits (ob * 8) (int fs) @ uintBits 8 (int 0)
      @ (if has_idx then concat (map (\<lambda>x. uintBits (ob * 8) (int x)) si) else [])
      @ concat (map byteBits body))
   = magic @ [packByte ([a, b, c] @ uintBits 2 flags @ uintBits 3 1)] @ [of_nat ob] @ [of_nat n]
      @ [1] @ [0] @ uintBytes ob fs @ [0]
      @ (if has_idx then concat (map (uintBytes ob) si) else [])
      @ body"
proof -
  let ?body = "concat (map byteBits body)"
  let ?idx = "if has_idx then concat (map (\<lambda>x. uintBits (ob * 8) (int x)) si) else []"
  have b0: "packBytes ?body = body" by (rule packBytes_bytes)
  have b1: "packBytes (?idx @ ?body) = (if has_idx then concat (map (uintBytes ob) si) else []) @ body"
    using b0 by (simp add: pack_index)
  have b2: "packBytes (uintBits 8 (int 0) @ ?idx @ ?body)
      = [0] @ (if has_idx then concat (map (uintBytes ob) si) else []) @ body"
    using pack_uint8 [of 0 "?idx @ ?body"] b1 by simp
  have b3: "packBytes (uintBits (ob * 8) (int fs) @ uintBits 8 (int 0) @ ?idx @ ?body)
      = uintBytes ob fs @ [0] @ (if has_idx then concat (map (uintBytes ob) si) else []) @ body"
    unfolding pack_uintN b2 ..
  have b4: "packBytes (uintBits 8 (int 0) @ uintBits (ob * 8) (int fs) @ uintBits 8 (int 0) @ ?idx @ ?body)
      = [0] @ uintBytes ob fs @ [0] @ (if has_idx then concat (map (uintBytes ob) si) else []) @ body"
    using pack_uint8 [of 0 "uintBits (ob * 8) (int fs) @ uintBits 8 (int 0) @ ?idx @ ?body"] b3 by simp
  have b5: "packBytes (uintBits 8 (int 1) @ uintBits 8 (int 0) @ uintBits (ob * 8) (int fs)
        @ uintBits 8 (int 0) @ ?idx @ ?body)
      = [1] @ [0] @ uintBytes ob fs @ [0] @ (if has_idx then concat (map (uintBytes ob) si) else []) @ body"
    using pack_uint8 [of 1 "uintBits 8 (int 0) @ uintBits (ob * 8) (int fs) @ uintBits 8 (int 0) @ ?idx @ ?body"] b4
    by simp
  have b6: "packBytes (uintBits 8 (int n) @ uintBits 8 (int 1) @ uintBits 8 (int 0)
        @ uintBits (ob * 8) (int fs) @ uintBits 8 (int 0) @ ?idx @ ?body)
      = [of_nat n] @ [1] @ [0] @ uintBytes ob fs @ [0]
        @ (if has_idx then concat (map (uintBytes ob) si) else []) @ body"
    using pack_uint8 [OF assms(2), of "uintBits 8 (int 1) @ uintBits 8 (int 0)
        @ uintBits (ob * 8) (int fs) @ uintBits 8 (int 0) @ ?idx @ ?body"] b5
    by simp
  have b7: "packBytes (uintBits 8 (int ob) @ uintBits 8 (int n) @ uintBits 8 (int 1) @ uintBits 8 (int 0)
        @ uintBits (ob * 8) (int fs) @ uintBits 8 (int 0) @ ?idx @ ?body)
      = [of_nat ob] @ [of_nat n] @ [1] @ [0] @ uintBytes ob fs @ [0]
        @ (if has_idx then concat (map (uintBytes ob) si) else []) @ body"
    using pack_uint8 [OF assms(1), of "uintBits 8 (int n) @ uintBits 8 (int 1) @ uintBits 8 (int 0)
        @ uintBits (ob * 8) (int fs) @ uintBits 8 (int 0) @ ?idx @ ?body"] b6
    by simp
  let ?R = "uintBits 8 (int ob) @ uintBits 8 (int n) @ uintBits 8 (int 1) @ uintBits 8 (int 0)
        @ uintBits (ob * 8) (int fs) @ uintBits 8 (int 0) @ ?idx @ ?body"
  have "length ([a, b, c] @ uintBits 2 flags @ uintBits 3 (int 1)) = 8" by simp
  from pack_cons8 [OF this, of ?R]
  have b8: "packBytes (([a, b, c] @ uintBits 2 flags @ uintBits 3 (int 1)) @ ?R)
      = packByte ([a, b, c] @ uintBits 2 flags @ uintBits 3 1) # packBytes ?R" by simp
  have "packBytes (concat (map byteBits magic) @ (([a, b, c] @ uintBits 2 flags @ uintBits 3 (int 1)) @ ?R))
      = magic @ packBytes (([a, b, c] @ uintBits 2 flags @ uintBits 3 (int 1)) @ ?R)"
    by (rule pack_bytes)
  then show ?thesis unfolding b8 b7 by (simp only: append_assoc append_Cons append_Nil)
qed

lemma toBoc_serialize_iff:
  "toBoc_serialize sha256 txt ord cellsIndex has_idx hash_crc32 has_cache_bits flags = Inr out \<longleftrightarrow>
     (\<exists>sers. mapE (\<lambda>cell_info. serializeForBoc sha256 txt (snd cell_info) cellsIndex) ord = Inr sers
        \<and> - 1 \<le> flags \<and> flags \<le> 3 \<and> length ord \<le> 255
        \<and> 8 * length (bocBytes has_idx hash_crc32 has_cache_bits flags (length ord) sers)
             \<le> 1247 * length ord + 1
        \<and> out = (if hash_crc32
                 then bocBytes has_idx hash_crc32 has_cache_bits flags (length ord) sers
                      @ crc32c (bocBytes has_idx hash_crc32 has_cache_bits flags (length ord) sers)
                 else bocBytes has_idx hash_crc32 has_cache_bits flags (length ord) sers))"
proof (cases "mapE (\<lambda>cell_info. serializeForBoc sha256 txt (snd cell_info) cellsIndex) ord")
  case (Inl e)
  then have "toBoc_serialize sha256 txt ord cellsIndex has_idx hash_crc32 has_cache_bits flags = Inl e"
    by (simp add: toBoc_serialize_def sizeLoop_eq Let_def)
  then show ?thesis using Inl by simp
next
  case (Inr sers)
  define fs where "fs = length (concat sers)"
  define si where "si = offsetsFrom 0 (map length sers)"
  define ob where "ob = max ((length (Number_toString2 fs) + 7) div 8) 1"
  define n where "n = length ord"
  define s0 where "s0 = new_BitString (1247 * n)"
  define FIN :: "u8 list \<Rightarrow> error + u8 list"
    where "FIN = (\<lambda>ser_arr. Inr (if hash_crc32 then concatBytes ser_arr (crc32c ser_arr) else ser_arr))"
  define OPS where "OPS =
    seqW (writeBytes reachBocMagicPrefix)
   (seqW (writeBitArray [has_idx, hash_crc32, has_cache_bits])
   (seqW (writeUint (Number flags) 2)
   (seqW (writeUint (Number (int 1)) 3)
   (seqW (writeUint8 (int ob))
   (seqW (writeUint (Number (int n)) 8)
   (seqW (writeUint (Number (int 1)) 8)
   (seqW (writeUint (Number (int 0)) 8)
   (seqW (writeUint (Number (int fs)) (ob * 8))
   (seqW (writeUint (Number (int 0)) 8)
   (seqW (\<lambda>b. if has_idx then indexLoop si (ob * 8) b else Inr b)
         (bodyLoop sha256 txt cellsIndex ord)))))))))))"
  define C where "C \<longleftrightarrow>
     True \<and> True \<and> (\<bar>flags\<bar> < 2 ^ 53 \<and> length (BN_toString2 flags 1) \<le> 2)
     \<and> ((1::nat) < 2 ^ 53 \<and> (1::nat) < 2 ^ 3) \<and> ob < 256 \<and> (n < 2 ^ 53 \<and> n < 2 ^ 8)
     \<and> ((1::nat) < 2 ^ 53 \<and> (1::nat) < 2 ^ 8) \<and> ((0::nat) < 2 ^ 53 \<and> (0::nat) < 2 ^ 8)
     \<and> (fs < 2 ^ 53 \<and> fs < 2 ^ (ob * 8)) \<and> ((0::nat) < 2 ^ 53 \<and> (0::nat) < 2 ^ 8)
     \<and> (has_idx \<longrightarrow> (\<forall>x \<in> set si. x < 2 ^ 53 \<and> x < 2 ^ (ob * 8))) \<and> True"
  define allBits where "allBits =
     concat (map byteBits reachBocMagicPrefix) @ [has_idx, hash_crc32, has_cache_bits]
     @ uintBits 2 flags @ uintBits 3 (int 1) @ uintBits 8 (int ob) @ uintBits 8 (int n)
     @ uintBits 8 (int 1) @ uintBits 8 (int 0) @ uintBits (ob * 8) (int fs) @ uintBits 8 (int 0)
     @ (if has_idx then concat (map (\<lambda>x. uintBits (ob * 8) (int x)) si) else [])
     @ concat (map byteBits (concat sers))"
  have ob: "0 < ob * 8" by (simp add: ob_def)
  have ob': "max ((length (Number_toString2 fs) + 7) div 8) (Suc 0) = ob" by (simp add: ob_def)
  have W: "writes OPS C allBits"
    unfolding OPS_def C_def allBits_def
    by (intro writes_seq writes_writeBytes writes_writeBitArray writes_writeUint writes_writeUint_nat
        writes_writeUint8 writes_cond writes_indexLoop writes_bodyLoop Inr ob) simp_all
  have ser: "toBoc_serialize sha256 txt ord cellsIndex has_idx hash_crc32 has_cache_bits flags
      = andThen (OPS s0) (\<lambda>b. andThen (getTopUppedArray b) FIN)"
    by (simp add: toBoc_serialize_def sizeLoop_eq Inr Let_def toBoc_s_bytes_one OPS_def seqW_def
        andThen_assoc FIN_def s0_def fs_def [symmetric] si_def [symmetric] ob' n_def [symmetric]
        cong: if_cong)
  let ?B = "bocBytes has_idx hash_crc32 has_cache_bits flags n sers"
  have lenA: "length allBits = 8 * (10 + ob + (if has_idx then ob * length si else 0) + length (concat sers))"
    by (simp add: allBits_def length_bytesBits length_index_bits reachBocMagicPrefix_def)
  then have len8: "length allBits mod 8 = 0" by simp
  have fsB: "fs \<le> length ?B" by (simp add: bocBytes_def Let_def fs_def)
  have pk: "packBytes allBits = ?B" if "ob < 256" "n < 256"
    unfolding allBits_def packBytes_layout [OF that]
    by (simp add: bocBytes_def toBoc_offset_bytes_def Let_def fs_def [symmetric] ob' si_def [symmetric])
  have lenB: "length allBits = 8 * length ?B" if "ob < 256" "n < 256"
  proof -
    have "length ?B = length allBits div 8" using pk [OF that] length_packBytes [of allBits] by simp
    then show ?thesis using len8 by (simp add: mod_eq_0_iff_dvd)
  qed
  have auto_conds: "fs < 2 ^ 53 \<and> ob < 256 \<and> fs < 2 ^ (ob * 8)
      \<and> (\<forall>x \<in> set si. x < 2 ^ 53 \<and> x < 2 ^ (ob * 8))"
    if small: "8 * fs \<le> 1247 * n + 1" and n: "n \<le> 255"
  proof -
    have "1247 * n + 1 \<le> 1247 * 255 + 1" using n by simp
    then have "8 * fs \<le> 1247 * 255 + 1" using small by (rule le_trans [rotated])
    then have f53: "fs < 2 ^ 53" by simp
    have "ob \<le> 7" unfolding ob_def using f53 by (rule offset_bytes_small)
    then have o: "ob < 256" by simp
    have fo: "fs < 2 ^ (ob * 8)" using offset_bytes_fits [of fs] by (simp add: ob_def mult.commute)
    have "x \<le> fs" if "x \<in> set si" for x
      using offsetsFrom_bounds [of x 0 "map length sers"] that
      by (simp add: si_def fs_def length_concat_sum)
    then have "\<forall>x \<in> set si. x < 2 ^ 53 \<and> x < 2 ^ (ob * 8)"
      using f53 fo by (meson le_less_trans)
    then show ?thesis using f53 o fo by simp
  qed
  have C_iff: "(C \<and> length allBits \<le> 1247 * n + 1)
      \<longleftrightarrow> (- 1 \<le> flags \<and> flags \<le> 3 \<and> n \<le> 255 \<and> 8 * length ?B \<le> 1247 * n + 1)"
  proof
    assume a: "C \<and> length allBits \<le> 1247 * n + 1"
    then have o: "ob < 256" and n: "n < 256"
      and fl: "\<bar>flags\<bar> < 2 ^ 53 \<and> length (BN_toString2 flags 1) \<le> 2"
      by (simp_all add: C_def)
    from a lenB [OF o n] have "8 * length ?B \<le> 1247 * n + 1" by simp
    moreover have "- 1 \<le> flags \<and> flags \<le> 3" using fl by (simp only: flags_fit)
    ultimately show "- 1 \<le> flags \<and> flags \<le> 3 \<and> n \<le> 255 \<and> 8 * length ?B \<le> 1247 * n + 1"
      using n by simp
  next
    assume a: "- 1 \<le> flags \<and> flags \<le> 3 \<and> n \<le> 255 \<and> 8 * length ?B \<le> 1247 * n + 1"
    then have n: "n \<le> 255" and room: "8 * length ?B \<le> 1247 * n + 1" by simp_all
    have "8 * fs \<le> 8 * length ?B" using fsB by simp
    with room have "8 * fs \<le> 1247 * n + 1" by simp
    note ac = auto_conds [OF this n]
    have fl: "\<bar>flags\<bar> < 2 ^ 53 \<and> length (BN_toString2 flags 1) \<le> 2"
      using a by (simp only: flags_fit)
    have n53: "n < 2 ^ 53" using n by simp
    have "C" unfolding C_def using ac fl n n53 by simp
    moreover have "length allBits \<le> 1247 * n + 1" using lenB [of] ac n room by simp
    ultimately show "C \<and> length allBits \<le> 1247 * n + 1" by simp
  qed
  have "toBoc_serialize sha256 txt ord cellsIndex has_idx hash_crc32 has_cache_bits flags = Inr out
      \<longleftrightarrow> (\<exists>b. OPS s0 = Inr b \<and> (\<exists>arr. getTopUppedArray b = Inr arr \<and> FIN arr = Inr out))"
    unfolding ser by (simp only: andThen_eq_Inr)
  also have "\<dots> \<longleftrightarrow> C \<and> (\<exists>arr. andThen (writeBitArray allBits s0) getTopUppedArray = Inr arr \<and> FIN arr = Inr out)"
    using W unfolding writes_def andThen_eq_Inr by blast
  also have "\<dots> \<longleftrightarrow> (C \<and> length allBits \<le> 1247 * n + 1) \<and> FIN (packBytes allBits) = Inr out"
    unfolding s0_def emit_fresh [OF len8] by auto
  also have "\<dots> \<longleftrightarrow> (C \<and> length allBits \<le> 1247 * n + 1) \<and> FIN ?B = Inr out"
  proof (cases "C \<and> length allBits \<le> 1247 * n + 1")
    case True
    then have "ob < 256" "n < 256" by (simp_all add: C_def)
    from pk [OF this] show ?thesis by simp
  next
    case False
    then show ?thesis by blast
  qed
  also have "\<dots> \<longleftrightarrow> (- 1 \<le> flags \<and> flags \<le> 3 \<and> n \<le> 255 \<and> 8 * length ?B \<le> 1247 * n + 1)
      \<and> out = (if hash_crc32 then ?B @ crc32c ?B else ?B)"
    unfolding C_iff by (auto simp: FIN_def concatBytes_def)
  finally show ?thesis using Inr by (simp add: n_def conj_assoc)
qed

lemma uintBits_3_1: "uintBits 3 1 = [False, False, True]"
  by code_simp

lemma size_field_bits:
  assumes "length xs = 5"
  shows "packByte (xs @ [False, False, True]) AND 7 = 1"
proof -
  have "bitsValue (xs @ [False, False, True]) = bitsValue xs * 2 ^ 3 + bitsValue [False, False, True]"
    using bitsValue_append [of xs "[False, False, True]"] by simp
  moreover have "bitsValue [False, False, True] = 1" by (simp add: bitsValue_def)
  ultimately have v: "bitsValue (xs @ [False, False, True]) = 8 * bitsValue xs + 1" by simp
  have "packByte (xs @ [False, False, True]) AND 7 = take_bit 3 (packByte (xs @ [False, False, True]))"
  proof -
    have "(7 :: u8) = mask 3" by (simp add: mask_eq_exp_minus_1)
    then show ?thesis by (simp only: take_bit_eq_mask)
  qed
  also have "\<dots> = of_nat (take_bit 3 (8 * bitsValue xs + 1))"
    unfolding packByte_def v by (simp only: of_nat_take_bit)
  also have "take_bit 3 (8 * bitsValue xs + 1) = (1::nat)"
    by (simp add: take_bit_eq_mod)
  finally show ?thesis by simp
qed

subsection \<open>Failure on more than 255 cells\<close>

lemma toBoc_serialize_fails:
  assumes "255 < length topologicalOrder"
  shows "isl (toBoc_serialize sha256 txt topologicalOrder cellsIndex has_idx hash_crc32 has_cache_bits flags)"
proof (cases "toBoc_serialize sha256 txt topologicalOrder cellsIndex has_idx hash_crc32 has_cache_bits flags")
  case (Inr out)
  then have "length topologicalOrder \<le> 255" unfolding toBoc_serialize_iff by blast
  with assms show ?thesis by simp
qed simp

lemma bocBytes_header:
  "take 9 (bocBytes a b c fl k sers)
     = reachBocMagicPrefix
       @ [packByte ([a, b, c] @ uintBits 2 fl @ [False, False, True]),
          of_nat (toBoc_offset_bytes (length (concat sers))), of_nat k, 1, 0]"
  "bocBytes a b c fl k sers ! (9 + toBoc_offset_bytes (length (concat sers))) = 0"
  "bocBytes a b c fl k sers ! 4 AND 7 = 1"
proof -
  let ?ob = "toBoc_offset_bytes (length (concat sers))"
  let ?pre = "reachBocMagicPrefix
       @ [packByte ([a, b, c] @ uintBits 2 fl @ [False, False, True]), of_nat ?ob, of_nat k, 1, 0]"
  let ?post = "(if a then concat (map (uintBytes ?ob) (offsetsFrom 0 (map length sers))) else []) @ concat sers"
  have B: "bocBytes a b c fl k sers = ?pre @ uintBytes ?ob (length (concat sers)) @ [0] @ ?post"
    by (simp add: bocBytes_def Let_def uintBits_3_1)
  have lp: "length ?pre = 9" by (simp add: reachBocMagicPrefix_def)
  show "take 9 (bocBytes a b c fl k sers) = ?pre" unfolding B using lp by simp
  have "(?pre @ uintBytes ?ob (length (concat sers)) @ [0] @ ?post) ! (9 + ?ob)
      = ((uintBytes ?ob (length (concat sers)) @ [0] @ ?post)) ! ?ob"
    using lp by (simp add: nth_append)
  also have "\<dots> = 0" using length_uintBytes [of ?ob "length (concat sers)"] by (simp add: nth_append)
  finally show "bocBytes a b c fl k sers ! (9 + ?ob) = 0" unfolding B .
  have "bocBytes a b c fl k sers ! 4 = packByte (([a, b, c] @ uintBits 2 fl) @ [False, False, True])"
    unfolding B by (simp add: reachBocMagicPrefix_def)
  moreover have "length ([a, b, c] @ uintBits 2 fl) = 5" by simp
  ultimately show "bocBytes a b c fl k sers ! 4 AND 7 = 1" by (simp only: size_field_bits)
qed

lemma toBoc_after_walk:
  assumes "treeWalk fuel sha256 uint8ArrayToText root [] Map.empty None = Some (Inr (topologicalOrder, cellsIndex))"
  shows "toBoc fuel sha256 uint8ArrayToText root has_idx hash_crc32 has_cache_bits flags
      = Some (toBoc_serialize sha256 uint8ArrayToText topologicalOrder cellsIndex has_idx hash_crc32 has_cache_bits flags)"
  using assms by (simp add: toBoc_def)

lemma toBoc_walked:
  assumes "toBoc fuel sha256 uint8ArrayToText root has_idx hash_crc32 has_cache_bits flags = Some (Inr out)"
  shows "\<exists>topologicalOrder cellsIndex.
      treeWalk fuel sha256 uint8ArrayToText root [] Map.empty None = Some (Inr (topologicalOrder, cellsIndex))
    \<and> toBoc_serialize sha256 uint8ArrayToText topologicalOrder cellsIndex has_idx hash_crc32 has_cache_bits flags = Inr out"
  using assms by (auto simp: toBoc_def split: option.splits sum.splits)

lemma treeWalk_order_card:
  assumes "hash sha256 root = Inr h0"
    and "collisionFree sha256 uint8ArrayToText root"
    and "size root \<le> fuel"
  shows "\<exists>order index. treeWalk fuel sha256 uint8ArrayToText root [] Map.empty None = Some (Inr (order, index))
     \<and> length order = card (keyOf sha256 uint8ArrayToText ` set (allCells root))"
proof -
  let ?K = "keyOf sha256 uint8ArrayToText"
  from treeWalk_result [OF assms] obtain S where
    tw: "treeWalk fuel sha256 uint8ArrayToText root [] Map.empty None
           = Some (Inr (enc sha256 S, indexMap (map ?K S)))"
    and S: "set S \<subseteq> reach root" "distinct (map ?K S)"
    and all: "\<And>c. c \<in> reach root \<Longrightarrow> ?K c \<in> set (map ?K S)"
    by blast
  have "set (map ?K S) = ?K ` reach root" using S(1) all by auto
  then have "card (?K ` reach root) = length (map ?K S)"
    using distinct_card [OF S(2)] by simp
  then have "length (enc sha256 S) = card (?K ` reach root)" by (simp add: enc_def)
  with tw show ?thesis by blast
qed

lemma toBoc_fails_many_cells:
  assumes "hash sha256 root = Inr h0"
    and "collisionFree sha256 uint8ArrayToText root"
    and "size root \<le> fuel"
    and "255 < card (keyOf sha256 uint8ArrayToText ` set (allCells root))"
  shows "\<exists>e. toBoc fuel sha256 uint8ArrayToText root has_idx hash_crc32 has_cache_bits flags = Some (Inl e)"
proof -
  from treeWalk_order_card [OF assms(1-3)] obtain order index where
    tw: "treeWalk fuel sha256 uint8ArrayToText root [] Map.empty None = Some (Inr (order, index))"
    and len: "length order = card (keyOf sha256 uint8ArrayToText ` set (allCells root))"
    by blast
  have "255 < length order" using len assms(4) by simp
  then have "isl (toBoc_serialize sha256 uint8ArrayToText order index has_idx hash_crc32 has_cache_bits flags)"
    by (rule toBoc_serialize_fails)
  then show ?thesis unfolding toBoc_after_walk [OF tw] by (auto simp: isl_def)
qed

lemma toBoc_unhashable:
  assumes "hash sha256 root = Inl e"
  shows "toBoc fuel sha256 uint8ArrayToText root has_idx hash_crc32 has_cache_bits flags = Some (Inl e)"
  using assms by (simp add: toBoc_def treeWalk.simps [of _ _ _ root])

lemma toBoc_fails_over_255_cells:
  assumes "collisionFree sha256 uint8ArrayToText root"
    and "size root \<le> fuel"
    and "255 < card (keyOf sha256 uint8ArrayToText ` set (allCells root))"
  shows "\<exists>e. toBoc fuel sha256 uint8ArrayToText root has_idx hash_crc32 has_cache_bits flags = Some (Inl e)"
proof (cases "hash sha256 root")
  case (Inl e)
  then show ?thesis by (simp add: toBoc_unhashable)
next
  case (Inr h0)
  then show ?thesis using assms by (rule toBoc_fails_many_cells)
qed

subsection \<open>A graph of 256 cells\<close>

text \<open>
  \<open>demoChain n\<close> is a chain of \<open>n + 1\<close> empty cells, each the only child of the next.  With the
  identity in the place of \<open>sha256\<close> the hash of a cell is its representation, whose length tells
  the cells of the chain apart.
\<close>

fun demoChain :: "nat \<Rightarrow> Cell" where
  "demoChain 0 = demoLeaf"
| "demoChain (Suc n) = Cell \<lparr>array = [], cursor = 0, length_bits = 0\<rparr> [RefCell (demoChain n)] False"

lemma demoChain_bits: "bits (demoChain n) = \<lparr>array = [], cursor = 0, length_bits = 0\<rparr>"
  by (cases n) (simp_all add: demoLeaf_def)

lemma demoChain_level: "getMaxLevel (demoChain n) = 0"
  by (induction n) (simp_all add: getMaxLevel_Cell demoLeaf_def)

lemma getTopUppedArray_empty: "getTopUppedArray \<lparr>array = [], cursor = 0, length_bits = 0\<rparr> = Inr []"
  by code_simp

lemma demoChain_data:
  "\<exists>d. getDataWithDescriptors (demoChain n) = Inr d \<and> length d = 2"
  by (simp add: getDataWithDescriptors_def Let_def demoChain_bits getTopUppedArray_empty)

lemma demoChain_refs_0: "cellsOf (refs (demoChain 0)) = []"
  by (simp add: demoLeaf_def)

lemma demoChain_refs_Suc: "cellsOf (refs (demoChain (Suc n))) = [demoChain n]"
  by simp

lemma demoChain_repr:
  "\<exists>r. getRepr (\<lambda>x. x) (demoChain n) = Inr r \<and> length r = 2 + 4 * n"
proof (induction n)
  case 0
  obtain d where d: "getDataWithDescriptors (demoChain 0) = Inr d" "length d = 2"
    using demoChain_data [of 0] by blast
  have "getRepr (\<lambda>x. x) (demoChain 0) = Inr d"
    by (subst getRepr.simps) (simp only: d demoChain_refs_0 andThen_simps mapE.simps list.map concat.simps append_Nil2)
  with d(2) show ?case by simp
next
  case (Suc n)
  obtain d where d: "getDataWithDescriptors (demoChain (Suc n)) = Inr d" "length d = 2"
    using demoChain_data [of "Suc n"] by blast
  from Suc obtain r where r: "getRepr (\<lambda>x. x) (demoChain n) = Inr r" "length r = 2 + 4 * n" by blast
  have "getRepr (\<lambda>x. x) (demoChain (Suc n)) = Inr (d @ getMaxDepthAsArray (demoChain n) @ r)"
    by (subst getRepr.simps)
       (simp only: d r demoChain_refs_Suc andThen_simps mapE.simps list.map concat.simps append_Nil2)
  moreover have "length (getMaxDepthAsArray (demoChain n)) = 2"
    by (simp add: getMaxDepthAsArray_def Let_def)
  ultimately show ?case using d(2) r(2) by simp
qed

lemma demoChain_hash:
  "\<exists>h. hash (\<lambda>x. x) (demoChain n) = Inr h \<and> length h = 2 + 4 * n"
proof -
  obtain r where "getRepr (\<lambda>x. x) (demoChain n) = Inr r" "length r = 2 + 4 * n"
    using demoChain_repr [of n] by blast
  then show ?thesis by (simp add: hash_def)
qed

lemma demoChain_key_length: "length (keyOf (\<lambda>x. x) (\<lambda>x. x) (demoChain n)) = 2 + 4 * n"
proof -
  obtain h where "hash (\<lambda>x. x) (demoChain n) = Inr h" "length h = 2 + 4 * n"
    using demoChain_hash [of n] by blast
  then show ?thesis by (simp add: keyOf_def hashOf_def)
qed

lemma demoChain_inj:
  assumes "demoChain i = demoChain j"
  shows "i = j"
proof -
  have "2 + 4 * i = length (keyOf (\<lambda>x. x) (\<lambda>x. x) (demoChain i))"
    by (simp only: demoChain_key_length)
  also have "\<dots> = length (keyOf (\<lambda>x. x) (\<lambda>x. x) (demoChain j))"
    by (simp only: assms)
  also have "\<dots> = 2 + 4 * j" by (simp only: demoChain_key_length)
  finally show ?thesis by simp
qed

lemma demoChain_cells: "set (allCells (demoChain n)) = demoChain ` {..n}"
proof (induction n)
  case 0
  have "allCells (demoChain 0) = [demoChain 0]"
    by (subst allCells.simps) (simp only: demoChain_refs_0 list.map concat.simps)
  then show ?case by simp
next
  case (Suc n)
  have "allCells (demoChain (Suc n)) = demoChain (Suc n) # allCells (demoChain n)"
    by (subst allCells.simps) (simp only: demoChain_refs_Suc list.map concat.simps append_Nil2)
  moreover have "{..Suc n} = insert (Suc n) {..n}" by (rule atMost_Suc)
  ultimately show ?case using Suc by (simp only: list.set image_insert)
qed

lemma demoChain_keys: "inj_on (keyOf (\<lambda>x. x) (\<lambda>x. x)) (set (allCells (demoChain n)))"
proof (rule inj_onI)
  fix x y
  assume "x \<in> set (allCells (demoChain n))" "y \<in> set (allCells (demoChain n))"
    and eq: "keyOf (\<lambda>x. x) (\<lambda>x. x) x = keyOf (\<lambda>x. x) (\<lambda>x. x) y"
  then obtain i j where ij: "x = demoChain i" "y = demoChain j" unfolding demoChain_cells by blast
  have "2 + 4 * i = length (keyOf (\<lambda>x. x) (\<lambda>x. x) x)"
    unfolding ij by (simp only: demoChain_key_length)
  also have "\<dots> = length (keyOf (\<lambda>x. x) (\<lambda>x. x) y)" by (simp only: eq)
  also have "\<dots> = 2 + 4 * j" unfolding ij by (simp only: demoChain_key_length)
  finally have "i = j" by simp
  then show "x = y" using ij by simp
qed

lemma demoChain_card: "card (set (allCells (demoChain n))) = Suc n"
proof -
  have "inj_on demoChain {..n}" by (rule inj_onI) (rule demoChain_inj)
  then have "card (demoChain ` {..n}) = card {..n}" by (rule card_image)
  then show ?thesis by (simp add: demoChain_cells)
qed

lemma demoChain_collisionFree: "collisionFree (\<lambda>x. x) (\<lambda>x. x) (demoChain n)"
  using demoChain_keys by (rule inj_collisionFree)

lemma demoChain_key_card:
  "card (keyOf (\<lambda>x. x) (\<lambda>x. x) ` set (allCells (demoChain n))) = Suc n"
  using card_image [OF demoChain_keys, of n] by (simp add: demoChain_card)

lemma demoBranch_toBoc:
  "toBoc 10 (\<lambda>x. x) (\<lambda>x. x) demoBranch True False False 0
     = Some (Inr [181, 238, 156, 114, 129, 1, 2, 1, 0, 5, 0, 0, 3, 1, 0, 1, 0, 0])"
  by code_simp

text \<open>
  C8. The size fields of the serializer.  The number of bytes \<open>s_bytes\<close> that \<open>toBoc\<close> computes for
  the cell count, \<open>min (ceil (bits / 8), 1)\<close>, is 1 for every count.
  \<open>toBoc\<close> returns bytes exactly when the walk returns an order and an index table,
  \<open>serializeForBoc\<close> succeeds on every cell of the order, the flags are between -1 and 3, the
  order has at most 255 cells and the bytes fit the bit string that \<open>toBoc\<close> allocates; the bytes
  are then \<open>bocBytes\<close>, followed by their checksum if one is asked for.
  In \<open>bocBytes\<close> the magic prefix is followed by the flags byte, whose three low bits hold the
  size 1, by the byte of \<open>offset_bytes\<close>, and by \<open>cells_num\<close>, \<open>roots_num = 1\<close> and
  \<open>absent_num = 0\<close> in one byte each; the root index 0 is the one byte after the \<open>offset_bytes\<close>
  bytes of the total size.
  So the part of \<open>toBoc\<close> that follows the walk fails on every order of more than 255 cells, and
  \<open>toBoc\<close> fails, with an error and no bytes, on every graph whose cells have more than 255
  different hash keys (the keys free of collisions on the graph, the fuel covering the size of
  the graph).
\<close>

theorem toBoc_size_clamp:
  "toBoc_s_bytes n = 1
   \<and> (toBoc fuel sha256 uint8ArrayToText root has_idx hash_crc32 has_cache_bits flags = Some (Inr out) \<longleftrightarrow>
        (\<exists>order index sers.
            treeWalk fuel sha256 uint8ArrayToText root [] Map.empty None = Some (Inr (order, index))
          \<and> mapE (\<lambda>cell_info. serializeForBoc sha256 uint8ArrayToText (snd cell_info) index) order = Inr sers
          \<and> - 1 \<le> flags \<and> flags \<le> 3 \<and> length order \<le> 255
          \<and> 8 * length (bocBytes has_idx hash_crc32 has_cache_bits flags (length order) sers)
               \<le> 1247 * length order + 1
          \<and> out = (if hash_crc32
                   then bocBytes has_idx hash_crc32 has_cache_bits flags (length order) sers
                        @ crc32c (bocBytes has_idx hash_crc32 has_cache_bits flags (length order) sers)
                   else bocBytes has_idx hash_crc32 has_cache_bits flags (length order) sers)))
   \<and> take 9 (bocBytes has_idx hash_crc32 has_cache_bits flags cells sers')
        = reachBocMagicPrefix
          @ [packByte ([has_idx, hash_crc32, has_cache_bits] @ uintBits 2 flags @ [False, False, True]),
             of_nat (toBoc_offset_bytes (length (concat sers'))), of_nat cells, 1, 0]
   \<and> bocBytes has_idx hash_crc32 has_cache_bits flags cells sers' ! 4 AND 7 = 1
   \<and> bocBytes has_idx hash_crc32 has_cache_bits flags cells sers'
        ! (9 + toBoc_offset_bytes (length (concat sers'))) = 0
   \<and> (255 < length topologicalOrder \<longrightarrow>
        isl (toBoc_serialize sha256 uint8ArrayToText topologicalOrder cellsIndex has_idx hash_crc32 has_cache_bits flags))
   \<and> (collisionFree sha256 uint8ArrayToText graph \<and> size graph \<le> fuel'
        \<and> 255 < card (keyOf sha256 uint8ArrayToText ` set (allCells graph)) \<longrightarrow>
        (\<exists>e. toBoc fuel' sha256 uint8ArrayToText graph has_idx hash_crc32 has_cache_bits flags = Some (Inl e)))"
proof (intro conjI impI)
  show "toBoc_s_bytes n = 1" by (rule toBoc_s_bytes_one)
next
  show "toBoc fuel sha256 uint8ArrayToText root has_idx hash_crc32 has_cache_bits flags = Some (Inr out) \<longleftrightarrow>
        (\<exists>order index sers.
            treeWalk fuel sha256 uint8ArrayToText root [] Map.empty None = Some (Inr (order, index))
          \<and> mapE (\<lambda>cell_info. serializeForBoc sha256 uint8ArrayToText (snd cell_info) index) order = Inr sers
          \<and> - 1 \<le> flags \<and> flags \<le> 3 \<and> length order \<le> 255
          \<and> 8 * length (bocBytes has_idx hash_crc32 has_cache_bits flags (length order) sers)
               \<le> 1247 * length order + 1
          \<and> out = (if hash_crc32
                   then bocBytes has_idx hash_crc32 has_cache_bits flags (length order) sers
                        @ crc32c (bocBytes has_idx hash_crc32 has_cache_bits flags (length order) sers)
                   else bocBytes has_idx hash_crc32 has_cache_bits flags (length order) sers))"
  proof (cases "treeWalk fuel sha256 uint8ArrayToText root [] Map.empty None")
    case None
    then show ?thesis by (simp add: toBoc_def)
  next
    case (Some r)
    show ?thesis
    proof (cases r)
      case (Inl e)
      then show ?thesis using Some by (simp add: toBoc_def)
    next
      case (Inr p)
      obtain order index where p: "p = (order, index)" by (cases p)
      have "toBoc fuel sha256 uint8ArrayToText root has_idx hash_crc32 has_cache_bits flags
          = Some (toBoc_serialize sha256 uint8ArrayToText order index has_idx hash_crc32 has_cache_bits flags)"
        using Some Inr p by (simp add: toBoc_def)
      then show ?thesis using Some Inr p by (simp add: toBoc_serialize_iff)
    qed
  qed
next
  show "take 9 (bocBytes has_idx hash_crc32 has_cache_bits flags cells sers')
        = reachBocMagicPrefix
          @ [packByte ([has_idx, hash_crc32, has_cache_bits] @ uintBits 2 flags @ [False, False, True]),
             of_nat (toBoc_offset_bytes (length (concat sers'))), of_nat cells, 1, 0]"
    by (rule bocBytes_header)
next
  show "bocBytes has_idx hash_crc32 has_cache_bits flags cells sers' ! 4 AND 7 = 1"
    by (rule bocBytes_header)
next
  show "bocBytes has_idx hash_crc32 has_cache_bits flags cells sers'
        ! (9 + toBoc_offset_bytes (length (concat sers'))) = 0"
    by (rule bocBytes_header)
next
  assume "255 < length topologicalOrder"
  then show "isl (toBoc_serialize sha256 uint8ArrayToText topologicalOrder cellsIndex has_idx hash_crc32 has_cache_bits flags)"
    by (rule toBoc_serialize_fails)
next
  assume "collisionFree sha256 uint8ArrayToText graph \<and> size graph \<le> fuel'
        \<and> 255 < card (keyOf sha256 uint8ArrayToText ` set (allCells graph))"
  then show "\<exists>e. toBoc fuel' sha256 uint8ArrayToText graph has_idx hash_crc32 has_cache_bits flags = Some (Inl e)"
    by (intro toBoc_fails_over_255_cells) simp_all
qed

theorem toBoc_size_clamp_witness:
  "toBoc_s_bytes 256 = 1
   \<and> (\<exists>order index sers.
          treeWalk 10 (\<lambda>x. x) (\<lambda>x. x) demoBranch [] Map.empty None = Some (Inr (order, index))
        \<and> mapE (\<lambda>cell_info. serializeForBoc (\<lambda>x. x) (\<lambda>x. x) (snd cell_info) index) order = Inr sers
        \<and> length order \<le> 255
        \<and> 8 * length (bocBytes True False False 0 (length order) sers) \<le> 1247 * length order + 1
        \<and> [181, 238, 156, 114, 129, 1, 2, 1, 0, 5, 0, 0, 3, 1, 0, 1, 0, 0]
            = bocBytes True False False 0 (length order) sers)
   \<and> take 9 (bocBytes True False False 0 2 [[0, 1], [0, 0]])
        = [181, 238, 156, 114, 129, 1, 2, 1, 0]
   \<and> bocBytes True False False 0 2 [[0, 1], [0, 0]] ! 4 AND 7 = 1
   \<and> bocBytes True False False 0 2 [[0, 1], [0, 0]] ! 10 = 0
   \<and> isl (toBoc_serialize (\<lambda>x. x) (\<lambda>x. x) (replicate 256 ([], demoLeaf)) Map.empty True False False 0)
   \<and> (\<exists>e. toBoc (size (demoChain 255)) (\<lambda>x. x) (\<lambda>x. x) (demoChain 255) True False False 0 = Some (Inl e))"
proof -
  have f: "packByte (True # False # False # uintBits 2 0 @ [False, False, True]) = 129" by code_simp
  have ob: "toBoc_offset_bytes (Suc (Suc (Suc (Suc 0)))) = Suc 0" by code_simp
  note t = toBoc_size_clamp [of 256 10 "\<lambda>x. x" "\<lambda>x. x" demoBranch True False False 0
      "[181, 238, 156, 114, 129, 1, 2, 1, 0, 5, 0, 0, 3, 1, 0, 1, 0, 0]" 2 "[[0, 1], [0, 0]]"
      "replicate 256 ([], demoLeaf)" Map.empty "demoChain 255" "size (demoChain 255)"]
  show ?thesis
    using t demoBranch_toBoc demoChain_collisionFree [of 255] demoChain_key_card [of 255]
    by (simp add: f ob reachBocMagicPrefix_def)
qed

end
